theory Spec2Isabelle
  imports Main
begin

section \<open>JavaScript strings and values\<close>

text \<open>
  A JavaScript string is a sequence of UTF-16 code units. A code unit is modelled as a
  natural number (below 65536 in every real string); \<open>js\<close> writes a literal.
\<close>

type_synonym jstr = "nat list"

definition js :: "string \<Rightarrow> jstr" where
  "js s = map of_char s"

abbreviation SLASH :: nat where "SLASH \<equiv> 47"

abbreviation COLON :: nat where "COLON \<equiv> 58"

abbreviation QUERY :: nat where "QUERY \<equiv> 63"

abbreviation BACKSLASH :: nat where "BACKSLASH \<equiv> 92"

abbreviation STAR :: nat where "STAR \<equiv> 42"

abbreviation PLUS :: nat where "PLUS \<equiv> 43"

abbreviation PERCENT :: nat where "PERCENT \<equiv> 37"

datatype error = SyntaxError | URIError | Error jstr

text \<open>
  The values a caller can hand to \<open>getPagePath\<close>, as far as they are modelled:
  \<open>undefined\<close>, strings, the non-negative integers below \<open>2^53\<close>, plain objects that have
  no \<open>toString\<close> or \<open>valueOf\<close> of their own, arrays of such values, and functions
  inherited from a prototype (kept as their source text, which is what \<open>String(f)\<close>
  returns).
\<close>

datatype jsval =
    Undefined
  | Str jstr
  | Num nat
  | Object "(jstr \<times> jsval) list"
  | Array "jsval list"
  | Builtin jstr

text \<open>
  A property key that is an array index: the decimal numeral, without a leading zero, of
  an integer below \<open>2^32 - 1\<close>.
\<close>

definition is_digit :: "nat \<Rightarrow> bool" where
  "is_digit c \<longleftrightarrow> 48 \<le> c \<and> c \<le> 57"

definition array_index :: "jstr \<Rightarrow> nat option" where
  "array_index key =
     (if key \<noteq> [] \<and> list_all is_digit key \<and> (hd key = 48 \<longrightarrow> length key = 1)
      then (let n = foldl (\<lambda>a c. 10 * a + (c - 48)) 0 key in if n < 4294967295 then Some n else None)
      else None)"

text \<open>
  An object is given by its own enumerable properties with string keys, each key once,
  in the order of their creation; for an object literal that is the order in which its
  keys are written. \<open>Object.keys\<close> lists the keys that are array indices first, in ascending
  numeric order, and then the other keys in the order of creation. \<open>obj[key]\<close> for an
  own key is \<open>map_of obj key\<close>.
\<close>

definition index_of :: "jstr \<Rightarrow> nat" where
  "index_of key = (case array_index key of None \<Rightarrow> 0 | Some i \<Rightarrow> i)"

definition Object_keys :: "(jstr \<times> 'a) list \<Rightarrow> jstr list" where
  "Object_keys obj =
     sort_key index_of (filter (\<lambda>key. array_index key \<noteq> None) (map fst obj))
       @ filter (\<lambda>key. array_index key = None) (map fst obj)"

text \<open>
  What the program takes from its JavaScript engine and its host and cannot be read off
  the source: the upper-case mapping of the code units from 128 up (\<open>Some cu\<close> when the
  upper-case form is the single code unit \<open>cu\<close>, \<open>None\<close> when it is longer), the
  properties an array inherits from its prototype chain, \<open>process.env.NODE_ENV\<close>
  (\<open>None\<close> when it is not set; a host without a \<open>process\<close> object is not modelled), and
  whether a global \<open>history\<close> exists.
\<close>

record engine =
  upper :: "nat \<Rightarrow> nat option"
  array_proto :: "jstr \<Rightarrow> jsval"
  NODE_ENV :: "jstr option"
  has_history :: bool

section \<open>Regular expressions\<close>

subsection \<open>Character classes and case-insensitive comparison\<close>

text \<open>\<open>\w\<close> is \<open>[A-Za-z0-9_]\<close>.\<close>

definition is_word :: "nat \<Rightarrow> bool" where
  "is_word c \<longleftrightarrow> (48 \<le> c \<and> c \<le> 57) \<or> (65 \<le> c \<and> c \<le> 90) \<or> c = 95 \<or> (97 \<le> c \<and> c \<le> 122)"

text \<open>\<open>\s\<close>: the white space and line terminator code units of ECMAScript.\<close>

definition is_space :: "nat \<Rightarrow> bool" where
  "is_space c \<longleftrightarrow> (9 \<le> c \<and> c \<le> 13) \<or> c = 32 \<or> c = 160 \<or> c = 5760 \<or> (8192 \<le> c \<and> c \<le> 8202)
     \<or> c = 8232 \<or> c = 8233 \<or> c = 8239 \<or> c = 8287 \<or> c = 12288 \<or> c = 65279"

text \<open>
  \<open>Canonicalize\<close> of the ECMAScript specification for a pattern with the \<open>i\<close> flag and
  without the \<open>u\<close> flag: the code unit is upper-cased, unless the upper-case form is not a
  single code unit, or would take a code unit from 128 up into ASCII.
\<close>

definition toUpperCase :: "engine \<Rightarrow> nat \<Rightarrow> nat option" where
  "toUpperCase E ch = (if ch < 128 then Some (if 97 \<le> ch \<and> ch \<le> 122 then ch - 32 else ch) else upper E ch)"

definition Canonicalize :: "engine \<Rightarrow> nat \<Rightarrow> nat" where
  "Canonicalize E ch =
     (case toUpperCase E ch of
        None \<Rightarrow> ch
      | Some cu \<Rightarrow> if 128 \<le> ch \<and> cu < 128 then ch else cu)"

text \<open>A pattern character \<open>c\<close> accepts the input code unit \<open>x\<close>.\<close>

definition same_char :: "engine \<Rightarrow> nat \<Rightarrow> nat \<Rightarrow> bool" where
  "same_char E c x \<longleftrightarrow> Canonicalize E x = Canonicalize E c"

text \<open>The class \<open>[^/]\<close> accepts \<open>x\<close>.\<close>

definition not_slash :: "engine \<Rightarrow> nat \<Rightarrow> bool" where
  "not_slash E x \<longleftrightarrow> \<not> same_char E SLASH x"

subsection \<open>The patterns the router builds\<close>

text \<open>
  \<open>createRouter\<close> escapes every regular-expression metacharacter of a template except
  \<open>*\<close>, and then inserts the two groups \<open>([^/]*)\<close> and \<open>([^/]+)\<close> and the optional slash
  \<open>/?\<close>. So the source text it hands to \<open>RegExp\<close> is a sequence of atoms, each a
  character or one of the two groups, each followed by at most one quantifier \<open>*\<close> or
  \<open>?\<close>.
\<close>

datatype atom = Chr nat | Seg_star | Seg_plus

datatype item = Once atom | Optional atom | Many atom

text \<open>
  Reading an atom off the source text. \<open>\c\<close> is the identity escape of a character that
  is not a letter, digit or underscore. Every other use of a metacharacter is either a
  syntax error of JavaScript (a quantifier with nothing to repeat) or a form that
  \<open>createRouter\<close> never produces; both are \<open>None\<close>.
\<close>

definition is_syntax_char :: "nat \<Rightarrow> bool" where
  "is_syntax_char c \<longleftrightarrow> c \<in> set (js ''^$.*+?()[]{}|'') \<or> c = BACKSLASH"

fun read_atom :: "jstr \<Rightarrow> (atom \<times> jstr) option" where
  "read_atom [] = None"
| "read_atom (c # cs) =
     (if c = BACKSLASH then
        (case cs of
           [] \<Rightarrow> None
         | d # ds \<Rightarrow> if is_word d then None else Some (Chr d, ds))
      else if take 7 (c # cs) = js ''([^/]*)'' then Some (Seg_star, drop 6 cs)
      else if take 7 (c # cs) = js ''([^/]+)'' then Some (Seg_plus, drop 6 cs)
      else if is_syntax_char c then None
      else Some (Chr c, cs))"

lemma read_atom_shorter: "read_atom s = Some (a, r) \<Longrightarrow> length r < length s"
  by (cases s) (auto split: if_splits list.splits)

function read_items :: "jstr \<Rightarrow> item list option" where
  "read_items s =
     (if s = [] then Some []
      else case read_atom s of
        None \<Rightarrow> None
      | Some (a, r) \<Rightarrow>
          (if r \<noteq> [] \<and> hd r = STAR then map_option (Cons (Many a)) (read_items (tl r))
           else if r \<noteq> [] \<and> hd r = QUERY then map_option (Cons (Optional a)) (read_items (tl r))
           else map_option (Cons (Once a)) (read_items r)))"
  by pat_completeness auto

termination
proof (relation "measure length")
  show "wf (measure length)" by simp
next
  fix s :: jstr and x2 a r
  assume "s \<noteq> []" "read_atom s = Some x2" "(a, r) = x2" "r \<noteq> [] \<and> hd r = STAR"
  then show "(tl r, s) \<in> measure length"
    using read_atom_shorter [of s a r] by (cases r) auto
next
  fix s :: jstr and x2 a r
  assume "s \<noteq> []" "read_atom s = Some x2" "(a, r) = x2" "\<not> (r \<noteq> [] \<and> hd r = STAR)" "r \<noteq> [] \<and> hd r = QUERY"
  then show "(tl r, s) \<in> measure length"
    using read_atom_shorter [of s a r] by (cases r) auto
next
  fix s :: jstr and x2 a r
  assume "s \<noteq> []" "read_atom s = Some x2" "(a, r) = x2"
  then show "(r, s) \<in> measure length"
    using read_atom_shorter [of s a r] by auto
qed

declare read_items.simps [simp del]

subsection \<open>Matching\<close>

text \<open>
  \<open>try_down f lo hi\<close> is the backtracking of a greedy quantifier: the longest
  repetition first, then one less, down to \<open>lo\<close>; the first that lets the rest of the
  pattern match wins.
\<close>

fun try_down :: "(nat \<Rightarrow> 'a option) \<Rightarrow> nat \<Rightarrow> nat \<Rightarrow> 'a option" where
  "try_down f lo 0 = (if lo = 0 then f 0 else None)"
| "try_down f lo (Suc h) =
     (if Suc h < lo then None
      else case f (Suc h) of Some r \<Rightarrow> Some r | None \<Rightarrow> try_down f lo h)"

lemma try_down_cong [fundef_cong]:
  "lo = lo' \<Longrightarrow> hi = hi' \<Longrightarrow> (\<And>j. lo' \<le> j \<Longrightarrow> j \<le> hi' \<Longrightarrow> f j = g j)
   \<Longrightarrow> try_down f lo hi = try_down g lo' hi'"
proof (induction hi arbitrary: hi')
  case 0
  then show ?case by simp
next
  case (Suc h)
  have "try_down f lo h = try_down g lo' h"
    using Suc.prems by (intro Suc.IH) auto
  then show ?case using Suc.prems by (auto split: option.splits)
qed

text \<open>The number of leading code units of \<open>s\<close> that \<open>[^/]\<close> accepts.\<close>

definition seg_len :: "engine \<Rightarrow> jstr \<Rightarrow> nat" where
  "seg_len E s = length (takeWhile (not_slash E) s)"

lemma seg_len_le: "seg_len E s \<le> length s"
  by (simp add: seg_len_def length_takeWhile_le)

text \<open>
  A group under \<open>*\<close>: every iteration takes a non-empty run of non-slash code units (an
  empty iteration of \<open>([^/]*)*\<close> is rejected by the empty check of the specification's
  RepeatMatcher), longest first; when no further iteration leads to a match the rest of
  the pattern, \<open>k\<close>, continues with the capture of the last iteration (\<open>None\<close>, that is
  \<open>undefined\<close>, when there was none).
\<close>

function seg_many :: "engine \<Rightarrow> (jstr \<Rightarrow> jstr option \<Rightarrow> 'a option) \<Rightarrow> jstr \<Rightarrow> jstr option \<Rightarrow> 'a option" where
  "seg_many E k s cap =
     (case try_down (\<lambda>j. seg_many E k (drop j s) (Some (take j s))) 1 (seg_len E s) of
        Some r \<Rightarrow> Some r
      | None \<Rightarrow> k s cap)"
  by pat_completeness auto

termination
proof (relation "measure (\<lambda>(E, k, s, cap). length s)")
  show "wf (measure (\<lambda>(E, k :: jstr \<Rightarrow> jstr option \<Rightarrow> 'a option, s, cap :: jstr option). length s))" by simp
next
  fix E :: engine and k :: "jstr \<Rightarrow> jstr option \<Rightarrow> 'a option" and s :: jstr and cap :: "jstr option" and j
  assume "1 \<le> j" "j \<le> seg_len E s"
  then show "((E, k, drop j s, Some (take j s)), E, k, s, cap) \<in> measure (\<lambda>(E, k, s, cap). length s)"
    using seg_len_le [of E s] by auto
qed

declare seg_many.simps [simp del]

text \<open>
  \<open>exec E items s caps\<close> matches the whole of \<open>s\<close> against \<open>^items$\<close>, case-insensitively,
  and returns the captures of the groups in order (\<open>caps\<close> holds those of the items
  already passed, last first). It is \<open>String.prototype.match\<close> for the anchored pattern,
  with the whole match dropped as \<open>match.slice(1)\<close> does.
\<close>

fun exec :: "engine \<Rightarrow> item list \<Rightarrow> jstr \<Rightarrow> jstr option list \<Rightarrow> jstr option list option" where
  "exec E [] s caps = (if s = [] then Some (rev caps) else None)"
| "exec E (Once (Chr c) # r) s caps =
     (case s of
        [] \<Rightarrow> None
      | x # xs \<Rightarrow> if same_char E c x then exec E r xs caps else None)"
| "exec E (Optional (Chr c) # r) s caps =
     (case (case s of
              [] \<Rightarrow> None
            | x # xs \<Rightarrow> if same_char E c x then exec E r xs caps else None) of
        Some m \<Rightarrow> Some m
      | None \<Rightarrow> exec E r s caps)"
| "exec E (Many (Chr c) # r) s caps =
     try_down (\<lambda>j. exec E r (drop j s) caps) 0 (length (takeWhile (same_char E c) s))"
| "exec E (Once Seg_star # r) s caps =
     try_down (\<lambda>j. exec E r (drop j s) (Some (take j s) # caps)) 0 (seg_len E s)"
| "exec E (Once Seg_plus # r) s caps =
     try_down (\<lambda>j. exec E r (drop j s) (Some (take j s) # caps)) 1 (seg_len E s)"
| "exec E (Optional g # r) s caps =
     (case try_down (\<lambda>j. exec E r (drop j s) (Some (take j s) # caps)) 1 (seg_len E s) of
        Some m \<Rightarrow> Some m
      | None \<Rightarrow> exec E r s (None # caps))"
| "exec E (Many g # r) s caps =
     seg_many E (\<lambda>s' cap. exec E r s' (cap # caps)) s None"

text \<open>\<open>RegExp('^' + pattern + '$', 'i')\<close>: a syntax error, or the matcher of the pattern.\<close>

type_synonym regexp = "jstr \<Rightarrow> jstr option list option"

definition RegExp :: "engine \<Rightarrow> jstr \<Rightarrow> error + regexp" where
  "RegExp E pattern =
     (case read_items pattern of
        None \<Rightarrow> Inl SyntaxError
      | Some items \<Rightarrow> Inr (\<lambda>s. exec E items s []))"

section \<open>URI encoding\<close>

text \<open>
  \<open>encodeURIComponent\<close> and \<open>decodeURIComponent\<close> as the ECMAScript specification
  defines them (Encode and Decode with the unreserved set of a URI component): UTF-8 in
  percent escapes, a \<open>URIError\<close> for a lone surrogate when encoding and for a malformed
  escape or an ill-formed UTF-8 sequence when decoding.
\<close>

definition is_unreserved :: "nat \<Rightarrow> bool" where
  "is_unreserved c \<longleftrightarrow> (48 \<le> c \<and> c \<le> 57) \<or> (65 \<le> c \<and> c \<le> 90) \<or> (97 \<le> c \<and> c \<le> 122)
     \<or> c \<in> set (js ''-_.!~*'') \<or> c = 39 \<or> c = 40 \<or> c = 41"

definition hex_digit :: "nat \<Rightarrow> nat" where
  "hex_digit d = (if d < 10 then 48 + d else 55 + d)"

definition percent :: "nat list \<Rightarrow> jstr" where
  "percent octets = concat (map (\<lambda>b. [PERCENT, hex_digit (b div 16), hex_digit (b mod 16)]) octets)"

definition utf8 :: "nat \<Rightarrow> nat list" where
  "utf8 cp =
     (if cp < 128 then [cp]
      else if cp < 2048 then [192 + cp div 64, 128 + cp mod 64]
      else if cp < 65536 then [224 + cp div 4096, 128 + (cp div 64) mod 64, 128 + cp mod 64]
      else [240 + cp div 262144, 128 + (cp div 4096) mod 64, 128 + (cp div 64) mod 64, 128 + cp mod 64])"

definition is_lead :: "nat \<Rightarrow> bool" where
  "is_lead c \<longleftrightarrow> 55296 \<le> c \<and> c \<le> 56319"

definition is_trail :: "nat \<Rightarrow> bool" where
  "is_trail c \<longleftrightarrow> 56320 \<le> c \<and> c \<le> 57343"

fun encodeURIComponent :: "jstr \<Rightarrow> error + jstr" where
  "encodeURIComponent [] = Inr []"
| "encodeURIComponent (c # cs) =
     (if is_unreserved c then
        (case encodeURIComponent cs of Inl e \<Rightarrow> Inl e | Inr r \<Rightarrow> Inr (c # r))
      else if is_lead c then
        (case cs of
           [] \<Rightarrow> Inl URIError
         | d # ds \<Rightarrow>
             if is_trail d then
               (case encodeURIComponent ds of
                  Inl e \<Rightarrow> Inl e
                | Inr r \<Rightarrow> Inr (percent (utf8 (65536 + (c - 55296) * 1024 + (d - 56320))) @ r))
             else Inl URIError)
      else if is_trail c then Inl URIError
      else
        (case encodeURIComponent cs of Inl e \<Rightarrow> Inl e | Inr r \<Rightarrow> Inr (percent (utf8 c) @ r)))"

definition hex_val :: "nat \<Rightarrow> nat option" where
  "hex_val c =
     (if 48 \<le> c \<and> c \<le> 57 then Some (c - 48)
      else if 65 \<le> c \<and> c \<le> 70 then Some (c - 55)
      else if 97 \<le> c \<and> c \<le> 102 then Some (c - 87)
      else None)"

text \<open>One escape \<open>%XX\<close> at the head of the string.\<close>

fun read_octet :: "jstr \<Rightarrow> (nat \<times> jstr) option" where
  "read_octet (p # h # l # rest) =
     (if p = PERCENT then
        (case hex_val h of
           None \<Rightarrow> None
         | Some a \<Rightarrow> (case hex_val l of None \<Rightarrow> None | Some b \<Rightarrow> Some (16 * a + b, rest)))
      else None)"
| "read_octet _ = None"

fun read_octets :: "nat \<Rightarrow> jstr \<Rightarrow> (nat list \<times> jstr) option" where
  "read_octets 0 s = Some ([], s)"
| "read_octets (Suc n) s =
     (case read_octet s of
        None \<Rightarrow> None
      | Some (b, r) \<Rightarrow>
          (case read_octets n r of None \<Rightarrow> None | Some (bs, r') \<Rightarrow> Some (b # bs, r')))"

definition is_cont :: "nat \<Rightarrow> bool" where
  "is_cont b \<longleftrightarrow> 128 \<le> b \<and> b \<le> 191"

text \<open>The code point of a well-formed UTF-8 sequence of two to four octets.\<close>

definition utf8_decode :: "nat list \<Rightarrow> nat option" where
  "utf8_decode octets =
     (case octets of
        [a, b] \<Rightarrow>
          if 194 \<le> a \<and> a \<le> 223 \<and> is_cont b then Some ((a - 192) * 64 + (b - 128)) else None
      | [a, b, c] \<Rightarrow>
          if 224 \<le> a \<and> a \<le> 239 \<and> is_cont b \<and> is_cont c \<and> (a = 224 \<longrightarrow> 160 \<le> b) \<and> (a = 237 \<longrightarrow> b \<le> 159)
          then Some ((a - 224) * 4096 + (b - 128) * 64 + (c - 128)) else None
      | [a, b, c, d] \<Rightarrow>
          if 240 \<le> a \<and> a \<le> 244 \<and> is_cont b \<and> is_cont c \<and> is_cont d \<and> (a = 240 \<longrightarrow> 144 \<le> b) \<and> (a = 244 \<longrightarrow> b \<le> 143)
          then Some ((a - 240) * 262144 + (b - 128) * 4096 + (c - 128) * 64 + (d - 128)) else None
      | _ \<Rightarrow> None)"

definition utf16 :: "nat \<Rightarrow> jstr" where
  "utf16 cp = (if cp < 65536 then [cp] else [55296 + (cp - 65536) div 1024, 56320 + (cp - 65536) mod 1024])"

lemma read_octet_shorter: "read_octet s = Some (b, r) \<Longrightarrow> length r < length s"
  by (induction s rule: read_octet.induct) (auto split: if_splits option.splits)

lemma read_octets_shorter: "read_octets n s = Some (bs, r) \<Longrightarrow> length r \<le> length s"
proof (induction n arbitrary: s bs)
  case 0
  then show ?case by simp
next
  case (Suc n)
  then show ?case
    by (fastforce split: option.splits dest: read_octet_shorter)
qed

function decodeURIComponent :: "jstr \<Rightarrow> error + jstr" where
  "decodeURIComponent [] = Inr []"
| "decodeURIComponent (c # cs) =
     (if c \<noteq> PERCENT then
        (case decodeURIComponent cs of Inl e \<Rightarrow> Inl e | Inr r \<Rightarrow> Inr (c # r))
      else
        (case read_octet (c # cs) of
           None \<Rightarrow> Inl URIError
         | Some (b, rest) \<Rightarrow>
             if b < 128 then
               (case decodeURIComponent rest of Inl e \<Rightarrow> Inl e | Inr r \<Rightarrow> Inr (b # r))
             else if b < 192 \<or> 248 \<le> b then Inl URIError
             else
               (case read_octets (if b < 224 then 1 else if b < 240 then 2 else 3) rest of
                  None \<Rightarrow> Inl URIError
                | Some (bs, rest') \<Rightarrow>
                    (case utf8_decode (b # bs) of
                       None \<Rightarrow> Inl URIError
                     | Some cp \<Rightarrow>
                         (case decodeURIComponent rest' of
                            Inl e \<Rightarrow> Inl e
                          | Inr r \<Rightarrow> Inr (utf16 cp @ r))))))"
  by pat_completeness auto

termination
proof (relation "measure length")
  show "wf (measure length)" by simp
next
  fix c :: nat and cs :: jstr
  show "(cs, c # cs) \<in> measure length" by simp
next
  fix c :: nat and cs :: jstr and x2 b rest
  assume "read_octet (c # cs) = Some x2" "(b, rest) = x2"
  then show "(rest, c # cs) \<in> measure length"
    using read_octet_shorter [of "c # cs" b rest] by auto
next
  fix c :: nat and cs :: jstr and x2 b rest x2a bs rest'
  assume "read_octet (c # cs) = Some x2" "(b, rest) = x2"
    "read_octets (if b < 224 then 1 else if b < 240 then 2 else 3) rest = Some x2a" "(bs, rest') = x2a"
  then show "(rest', c # cs) \<in> measure length"
    using read_octet_shorter [of "c # cs" b rest]
      read_octets_shorter [of "if b < 224 then 1 else if b < 240 then 2 else 3" rest bs rest']
    by auto
qed

section \<open>Scanning a template for parameter markers\<close>

text \<open>
  The source finds markers with four global regular expressions of one shape: a literal
  prefix, \<open>\w+\<close>, and a literal suffix that does not begin with a word character
  (\<open>/\/:\w+/g\<close>, \<open>/\/:\w+\?/g\<close> on a template, \<open>/\/\\:\w+/g\<close>, \<open>/\/\\:\w+\\\?/g\<close> on an
  escaped template). \<open>\w+\<close> is greedy, and giving back a word character never helps, since
  the suffix cannot start with one; so there is a match at the head of \<open>s\<close> exactly when
  the prefix, a non-empty maximal run of word characters and the suffix stand there.
  \<open>marker_at\<close> is the length of that match.
\<close>

definition marker_at :: "jstr \<Rightarrow> jstr \<Rightarrow> jstr \<Rightarrow> nat option" where
  "marker_at pre suf s =
     (let w = takeWhile is_word (drop (length pre) s) in
      if take (length pre) s = pre \<and> w \<noteq> [] \<and> take (length suf) (drop (length pre + length w) s) = suf
      then Some (length pre + length w + length suf)
      else None)"

lemma marker_at_pos: "marker_at pre suf s = Some n \<Longrightarrow> 0 < n"
  by (auto simp: marker_at_def Let_def split: if_splits)

text \<open>
  A global scan, left to right: a match is taken whole (\<open>Inr\<close>) and the scan goes on
  behind it; where there is none, one code unit is passed over (\<open>Inl\<close>).
\<close>

function scan :: "jstr \<Rightarrow> jstr \<Rightarrow> jstr \<Rightarrow> (nat + jstr) list" where
  "scan pre suf [] = []"
| "scan pre suf (c # cs) =
     (case marker_at pre suf (c # cs) of
        Some n \<Rightarrow> Inr (take n (c # cs)) # scan pre suf (drop n (c # cs))
      | None \<Rightarrow> Inl c # scan pre suf cs)"
  by pat_completeness auto

termination
proof (relation "measure (\<lambda>(pre, suf, s). length s)")
  show "wf (measure (\<lambda>(pre :: jstr, suf :: jstr, s :: jstr). length s))" by simp
next
  fix pre suf :: jstr and c :: nat and cs :: jstr and n
  assume "marker_at pre suf (c # cs) = Some n"
  then show "((pre, suf, drop n (c # cs)), pre, suf, c # cs) \<in> measure (\<lambda>(pre, suf, s). length s)"
    using marker_at_pos [of pre suf "c # cs" n] by auto
next
  fix pre suf :: jstr and c :: nat and cs :: jstr
  show "((pre, suf, cs), pre, suf, c # cs) \<in> measure (\<lambda>(pre, suf, s). length s)" by simp
qed

text \<open>\<open>s.match(re)\<close> with the \<open>g\<close> flag: the matched texts (\<open>[]\<close> stands for \<open>null || []\<close>).\<close>

definition match_all :: "jstr \<Rightarrow> jstr \<Rightarrow> jstr \<Rightarrow> jstr list" where
  "match_all pre suf s = concat (map (case_sum (\<lambda>c. []) (\<lambda>m. [m])) (scan pre suf s))"

text \<open>\<open>s.replace(re, text)\<close> with the \<open>g\<close> flag and a replacement text without \<open>$\<close>.\<close>

definition replace_all :: "jstr \<Rightarrow> jstr \<Rightarrow> jstr \<Rightarrow> jstr \<Rightarrow> jstr" where
  "replace_all pre suf text s = concat (map (case_sum (\<lambda>c. [c]) (\<lambda>m. text)) (scan pre suf s))"

text \<open>
  \<open>s.replace(re, f)\<close> with the \<open>g\<close> flag and a callback, which may throw: the callback
  runs on the matches from left to right, and the first exception ends the call.
\<close>

fun replace_tokens :: "(jstr \<Rightarrow> error + jstr) \<Rightarrow> (nat + jstr) list \<Rightarrow> error + jstr" where
  "replace_tokens f [] = Inr []"
| "replace_tokens f (Inl c # ts) =
     (case replace_tokens f ts of Inl e \<Rightarrow> Inl e | Inr r \<Rightarrow> Inr (c # r))"
| "replace_tokens f (Inr m # ts) =
     (case f m of
        Inl e \<Rightarrow> Inl e
      | Inr t \<Rightarrow> (case replace_tokens f ts of Inl e \<Rightarrow> Inl e | Inr r \<Rightarrow> Inr (t @ r)))"

definition replace_with :: "jstr \<Rightarrow> jstr \<Rightarrow> (jstr \<Rightarrow> error + jstr) \<Rightarrow> jstr \<Rightarrow> error + jstr" where
  "replace_with pre suf f s = replace_tokens f (scan pre suf s)"

section \<open>The route table\<close>

type_synonym params = "jstr \<rightharpoonup> jstr"

type_synonym decoder = "jstr option list \<Rightarrow> error + params"

text \<open>
  An entry of \<open>router.routes\<close>: \<open>[name, RegExp, decoder, template?]\<close>. A regular expression
  is kept as what \<open>path.match(pattern)\<close> does with it: \<open>None\<close> for \<open>null\<close>, else the
  captures \<open>match.slice(1)\<close>, \<open>None\<close> among them for a group that took no part.
\<close>

record compiled_route =
  name :: jstr
  pattern :: regexp
  cb :: decoder
  template :: "jstr option"

text \<open>A value of the configuration: a template, or a \<open>[RegExp, decoder]\<close> pair.\<close>

datatype route_value = Template jstr | Pattern regexp decoder

text \<open>\<open>value.replace(/\/$/g, '')\<close>: without the \<open>m\<close> flag \<open>$\<close> is the end of the string.\<close>

definition strip_end_slash :: "jstr \<Rightarrow> jstr" where
  "strip_end_slash s = (if s \<noteq> [] \<and> last s = SLASH then butlast s else s)"

text \<open>\<open>s || '/'\<close>\<close>

definition or_slash :: "jstr \<Rightarrow> jstr" where
  "or_slash s = (if s = [] then js ''/'' else s)"

text \<open>\<open>.replace(/[\s!#$()+,.:<=?[\\\]^{|}]/g, '\\$&')\<close>\<close>

definition needs_escape :: "nat \<Rightarrow> bool" where
  "needs_escape c \<longleftrightarrow> is_space c \<or> c \<in> set (js ''!#$()+,.:<=?[]^{|}'') \<or> c = BACKSLASH"

definition escape :: "jstr \<Rightarrow> jstr" where
  "escape s = concat (map (\<lambda>c. if needs_escape c then [BACKSLASH, c] else [c]) s)"

definition param_names :: "jstr \<Rightarrow> jstr list" where
  "param_names v = map (drop 2) (match_all (js ''/:'') [] v)"

definition pattern_of :: "jstr \<Rightarrow> jstr" where
  "pattern_of v =
     replace_all [SLASH, BACKSLASH, COLON] [] (js ''/([^/]+)'')
       (replace_all [SLASH, BACKSLASH, COLON] [BACKSLASH, QUERY] (js ''/?([^/]*)'')
         (escape v))"

text \<open>
  \<open>String(match)\<close> as \<open>decodeURIComponent\<close> applies it to its argument: a group that took
  no part in the match is \<open>undefined\<close>.
\<close>

definition match_text :: "jstr option \<Rightarrow> jstr" where
  "match_text m = (case m of None \<Rightarrow> js ''undefined'' | Some s \<Rightarrow> s)"

text \<open>
  \<open>params[key] = value\<close> for a string \<open>value\<close>, on an object that began as \<open>{}\<close> and holds
  strings only: the property is created or changed, except under the key \<open>__proto__\<close>.
  There the assignment runs the setter that the object inherits from
  \<open>Object.prototype\<close>, and the setter ignores a value that is neither an object nor
  \<open>null\<close>: nothing is stored.
\<close>

definition assign :: "params \<Rightarrow> jstr \<Rightarrow> jstr \<Rightarrow> params" where
  "assign ps key v = (if key = js ''__proto__'' then ps else ps(key \<mapsto> v))"

text \<open>
  The decoder of a template, \<open>matches.reduce(..., {})\<close>: the match of index \<open>i\<close> is decoded
  and assigned to \<open>params[names[i]]\<close>; beyond the names \<open>names[i]\<close> is \<open>undefined\<close>, the key
  \<open>'undefined'\<close>.
\<close>

fun reduce_matches :: "jstr list \<Rightarrow> nat \<Rightarrow> jstr option list \<Rightarrow> params \<Rightarrow> error + params" where
  "reduce_matches names i [] ps = Inr ps"
| "reduce_matches names i (m # ms) ps =
     (case decodeURIComponent (match_text m) of
        Inl e \<Rightarrow> Inl e
      | Inr v \<Rightarrow>
          reduce_matches names (Suc i) ms
            (assign ps (if i < length names then names ! i else js ''undefined'') v))"

definition decode :: "jstr list \<Rightarrow> decoder" where
  "decode names matches = reduce_matches names 0 matches Map.empty"

text \<open>The callback of \<open>Object.keys(routes).map\<close>, for one name and its value.\<close>

fun compile :: "engine \<Rightarrow> jstr \<times> route_value \<Rightarrow> error + compiled_route" where
  "compile E (n, Template value) =
     (let v = or_slash (strip_end_slash value) in
      case RegExp E (pattern_of v) of
        Inl e \<Rightarrow> Inl e
      | Inr re \<Rightarrow> Inr \<lparr>name = n, pattern = re, cb = decode (param_names v), template = Some v\<rparr>)"
| "compile E (n, Pattern re d) = Inr \<lparr>name = n, pattern = re, cb = d, template = None\<rparr>"

fun compile_all :: "engine \<Rightarrow> (jstr \<times> route_value) list \<Rightarrow> error + compiled_route list" where
  "compile_all E [] = Inr []"
| "compile_all E (x # xs) =
     (case compile E x of
        Inl e \<Rightarrow> Inl e
      | Inr r \<Rightarrow> (case compile_all E xs of Inl e \<Rightarrow> Inl e | Inr rs \<Rightarrow> Inr (r # rs)))"

section \<open>The router\<close>

record page =
  path :: jstr
  route :: jstr
  params :: params

text \<open>A call on the global \<open>history\<close> object, with the URL it was given.\<close>

datatype history_call = PushState jstr | ReplaceState jstr

text \<open>
  The router: its table, \<open>opts.search\<close>, the variable \<open>prev\<close> of the closure, the values
  written into the atom by \<open>router(ctx, page)\<close> (oldest first; the atom holds its initial
  \<open>{}\<close> while there are none) and the calls made on \<open>history\<close> (oldest first).
\<close>

record router =
  routes :: "compiled_route list"
  search :: bool
  prev :: "jstr option"
  writes :: "page option list"
  history :: "history_call list"

text \<open>
  The names that \<open>Object.keys(routes)\<close> lists, each with its value \<open>routes[name]\<close>: the
  arguments of the callback of \<open>map\<close>, in the order of the calls.
\<close>

definition entries :: "(jstr \<times> 'a) list \<Rightarrow> (jstr \<times> 'a) list" where
  "entries obj =
     List.map_filter (\<lambda>name. map_option (Pair name) (map_of obj name)) (Object_keys obj)"

text \<open>
  \<open>createRouter(routes, opts)\<close>, for the configuration object \<open>routes\<close> and \<open>opts.search\<close>.
\<close>

definition createRouter :: "engine \<Rightarrow> (jstr \<times> route_value) list \<Rightarrow> bool \<Rightarrow> error + router" where
  "createRouter E config opts_search =
     (case compile_all E (entries config) of
        Inl e \<Rightarrow> Inl e
      | Inr rs \<Rightarrow> Inr \<lparr>routes = rs, search = opts_search, prev = None, writes = [], history = []\<rparr>)"

subsection \<open>parse\<close>

text \<open>
  \<open>path.replace(/\/($|\?)/, '$1')\<close>: the first slash that stands at the end or before a
  \<open>?\<close> is dropped.
\<close>

fun strip_slash :: "jstr \<Rightarrow> jstr" where
  "strip_slash [] = []"
| "strip_slash (c # cs) =
     (if c = SLASH \<and> (cs = [] \<or> hd cs = QUERY) then cs else c # strip_slash cs)"

text \<open>The first two lines of \<open>parse\<close>; \<open>path.split('?')[0]\<close> is the text before the first \<open>?\<close>.\<close>

definition normalize :: "bool \<Rightarrow> jstr \<Rightarrow> jstr" where
  "normalize opts_search p =
     or_slash (strip_slash (if \<not> opts_search then takeWhile (\<lambda>c. c \<noteq> QUERY) p else p))"

text \<open>The result of \<open>parse\<close>: \<open>false\<close>, \<open>undefined\<close>, or a page.\<close>

datatype parsed = Unchanged | NoPage | Page page

text \<open>The loop over \<open>router.routes\<close>; a decoder that throws ends it.\<close>

fun first_match :: "compiled_route list \<Rightarrow> jstr \<Rightarrow> error + parsed" where
  "first_match [] p = Inr NoPage"
| "first_match (r # rs) p =
     (case pattern r p of
        Some ms \<Rightarrow>
          (case cb r ms of
             Inl e \<Rightarrow> Inl e
           | Inr ps \<Rightarrow> Inr (Page \<lparr>path = p, route = name r, params = ps\<rparr>))
      | None \<Rightarrow> first_match rs p)"

text \<open>
  \<open>parse\<close> returns its result, or the exception it ends with, and the router with the
  new \<open>prev\<close>: the assignment comes before the loop and stays when the loop throws.
\<close>

definition parse :: "router \<Rightarrow> jstr \<Rightarrow> (error + parsed) \<times> router" where
  "parse r p0 =
     (let p = normalize (search r) p0 in
      if prev r = Some p then (Inr Unchanged, r)
      else (first_match (routes r) p, r\<lparr>prev := Some p\<rparr>))"

subsection \<open>open\<close>

text \<open>The value \<open>router(ctx, page)\<close> stores for a result of \<open>parse\<close> other than \<open>false\<close>.\<close>

fun stored :: "parsed \<Rightarrow> page option" where
  "stored (Page pg) = Some pg"
| "stored _ = None"

definition "open" :: "engine \<Rightarrow> jstr \<Rightarrow> bool \<Rightarrow> router \<Rightarrow> error option \<times> router" where
  "open E p redirect r =
     (case parse r p of
        (Inl e, r') \<Rightarrow> (Some e, r')
      | (Inr pg, r') \<Rightarrow>
          if pg \<noteq> Unchanged then
            (None, r'\<lparr>history :=
                        (if has_history E
                         then history r' @ [if redirect then ReplaceState p else PushState p]
                         else history r'),
                      writes := writes r' @ [stored pg]\<rparr>)
          else (None, r'))"

section \<open>getPagePath\<close>

text \<open>\<open>String(v)\<close> and the truth value of \<open>v\<close>.\<close>

function digits :: "nat \<Rightarrow> jstr" where
  "digits n = (if n < 10 then [48 + n] else digits (n div 10) @ [48 + n mod 10])"
  by pat_completeness auto

termination
  by (relation "measure id") auto

declare digits.simps [simp del]

text \<open>\<open>strings.join(',')\<close>\<close>

fun join :: "jstr list \<Rightarrow> jstr" where
  "join [] = []"
| "join [x] = x"
| "join (x # y # ys) = x @ 44 # join (y # ys)"

fun to_string :: "jsval \<Rightarrow> jstr" where
  "to_string Undefined = js ''undefined''"
| "to_string (Str s) = s"
| "to_string (Num n) = digits n"
| "to_string (Object props) = js ''[object Object]''"
| "to_string (Array elems) = join (map (\<lambda>v. if v = Undefined then [] else to_string v) elems)"
| "to_string (Builtin src) = src"

fun truthy :: "jsval \<Rightarrow> bool" where
  "truthy Undefined = False"
| "truthy (Str s) = (s \<noteq> [])"
| "truthy (Num n) = (n \<noteq> 0)"
| "truthy (Object props) = True"
| "truthy (Array elems) = True"
| "truthy (Builtin src) = True"

text \<open>
  \<open>params\<close> is a rest parameter, \<open>...params\<close>: inside \<open>getPagePath\<close> it is the array of the
  arguments that follow \<open>name\<close>, and \<open>params[key]\<close> reads a property of that array: its
  length, an element when the key is an array index, and what the prototype chain of an
  array gives for any other key.
\<close>

definition array_get :: "engine \<Rightarrow> jsval list \<Rightarrow> jstr \<Rightarrow> jsval" where
  "array_get E args key =
     (if key = js ''length'' then Num (length args)
      else case array_index key of
        Some i \<Rightarrow> if i < length args then args ! i else array_proto E key
      | None \<Rightarrow> array_proto E key)"

text \<open>The two callbacks of \<open>getPagePath\<close>, for an optional and for a required marker.\<close>

definition optional_segment :: "engine \<Rightarrow> jsval list \<Rightarrow> jstr \<Rightarrow> error + jstr" where
  "optional_segment E args i =
     (let param = array_get E args (butlast (drop 2 i)) in
      if truthy param then
        (case encodeURIComponent (to_string param) of Inl e \<Rightarrow> Inl e | Inr s \<Rightarrow> Inr (SLASH # s))
      else Inr [])"

definition required_segment :: "engine \<Rightarrow> jsval list \<Rightarrow> jstr \<Rightarrow> error + jstr" where
  "required_segment E args i =
     (case encodeURIComponent (to_string (array_get E args (drop 2 i))) of
        Inl e \<Rightarrow> Inl e
      | Inr s \<Rightarrow> Inr (SLASH # s))"

definition getPagePath :: "engine \<Rightarrow> router \<Rightarrow> jstr \<Rightarrow> jsval list \<Rightarrow> error + jstr" where
  "getPagePath E r n args =
     (let t = (case find (\<lambda>i. name i = n) (routes r) of None \<Rightarrow> None | Some i \<Rightarrow> template i) in
      if NODE_ENV E \<noteq> Some (js ''production'') \<and> (t = None \<or> t = Some [])
      then Inl (Error (js ''RegExp routes are not supported''))
      else case t of
        None \<Rightarrow> Inr (js ''/'')
      | Some tmpl \<Rightarrow>
          (case replace_with (js ''/:'') (js ''?'') (optional_segment E args) tmpl of
             Inl e \<Rightarrow> Inl e
           | Inr p1 \<Rightarrow>
               (case replace_with (js ''/:'') [] (required_segment E args) p1 of
                  Inl e \<Rightarrow> Inl e
                | Inr p2 \<Rightarrow> Inr (or_slash p2))))"

section \<open>Templates by their parts\<close>

text \<open>
  To state what \<open>createRouter\<close> does with a template, the template is written as its
  parts: some leading text, and then parameter markers, required (\<open>/:word\<close>) or
  optional (\<open>/:word?\<close>), each with the text that follows it up to the next marker.
\<close>

datatype kind = Required | Elective

type_synonym part = "kind \<times> jstr \<times> jstr"

fun marker :: "kind \<Rightarrow> jstr \<Rightarrow> jstr" where
  "marker Required w = js ''/:'' @ w"
| "marker Elective w = js ''/:'' @ w @ js ''?''"

fun markers :: "part list \<Rightarrow> jstr" where
  "markers [] = []"
| "markers ((k, w, t) # parts) = marker k w @ t @ markers parts"

definition render :: "jstr \<Rightarrow> part list \<Rightarrow> jstr" where
  "render t0 parts = t0 @ markers parts"

text \<open>
  Text between the markers is free of \<open>:\<close>, so that it holds no marker, and of \<open>*\<close>, the
  one metacharacter that \<open>createRouter\<close> does not escape. A parameter name is a non-empty
  run of word characters; the text behind a required marker does not go on with a word
  character, which would belong to the name, nor with \<open>?\<close>, which would make the marker
  an optional one.
\<close>

definition literal :: "jstr \<Rightarrow> bool" where
  "literal t \<longleftrightarrow> COLON \<notin> set t \<and> STAR \<notin> set t"

definition word :: "jstr \<Rightarrow> bool" where
  "word w \<longleftrightarrow> w \<noteq> [] \<and> list_all is_word w"

fun well_formed :: "part \<Rightarrow> bool" where
  "well_formed (k, w, t) \<longleftrightarrow>
     word w \<and> literal t \<and> (k = Required \<longrightarrow> t = [] \<or> (\<not> is_word (hd t) \<and> hd t \<noteq> QUERY))"

text \<open>The pattern that belongs to the parts.\<close>

definition chars :: "jstr \<Rightarrow> item list" where
  "chars t = map (Once \<circ> Chr) t"

fun group :: "kind \<Rightarrow> item list" where
  "group Required = [Once (Chr SLASH), Once Seg_plus]"
| "group Elective = [Optional (Chr SLASH), Once Seg_star]"

fun groups :: "part list \<Rightarrow> item list" where
  "groups [] = []"
| "groups ((k, w, t) # parts) = group k @ chars t @ groups parts"

definition items_of :: "jstr \<Rightarrow> part list \<Rightarrow> item list" where
  "items_of t0 parts = chars t0 @ groups parts"

text \<open>
  The text of the markers and what follows them after each of the three replacements
  of \<open>createRouter\<close>: the escaping, the replacement of the optional markers, and the
  replacement of the required ones.
\<close>

fun escaped :: "part list \<Rightarrow> jstr" where
  "escaped [] = []"
| "escaped ((k, w, t) # parts) =
     [SLASH, BACKSLASH, COLON] @ w @ (case k of Required \<Rightarrow> [] | Elective \<Rightarrow> [BACKSLASH, QUERY])
       @ escape t @ escaped parts"

fun halfway :: "part list \<Rightarrow> jstr" where
  "halfway [] = []"
| "halfway ((k, w, t) # parts) =
     (case k of Required \<Rightarrow> [SLASH, BACKSLASH, COLON] @ w | Elective \<Rightarrow> js ''/?([^/]*)'')
       @ escape t @ halfway parts"

fun source :: "part list \<Rightarrow> jstr" where
  "source [] = []"
| "source ((k, w, t) # parts) =
     (case k of Required \<Rightarrow> js ''/([^/]+)'' | Elective \<Rightarrow> js ''/?([^/]*)'')
       @ escape t @ source parts"

text \<open>
  The path that a template of required parameters gives when a value is put in the
  place of every marker.
\<close>

fun fill_parts :: "part list \<Rightarrow> jstr list \<Rightarrow> jstr" where
  "fill_parts ((k, w, t) # parts) (v # vs) = SLASH # v @ t @ fill_parts parts vs"
| "fill_parts _ _ = []"

definition fill :: "jstr \<Rightarrow> part list \<Rightarrow> jstr list \<Rightarrow> jstr" where
  "fill t0 parts vs = t0 @ fill_parts parts vs"

text \<open>
  A path as the parts of a template read it. \<open>follows E x t s\<close>: the string \<open>s\<close> begins
  with the code units \<open>x\<close> and goes on with the text \<open>t\<close>, compared as a pattern with the
  \<open>i\<close> flag compares. \<open>reading_parts E parts vs s\<close>: \<open>s\<close> consists, for every part, of a
  slash, the segment \<open>v\<close> of the parameter and the text of the part; a segment holds no
  slash, that of a required parameter is not empty, and before the segment of an
  optional parameter the slash may be missing. \<open>reading\<close> has the leading text before
  that.
\<close>

definition follows :: "engine \<Rightarrow> jstr \<Rightarrow> jstr \<Rightarrow> jstr \<Rightarrow> bool" where
  "follows E x t s \<longleftrightarrow>
     length x + length t \<le> length s \<and> take (length x) s = x
     \<and> list_all2 (same_char E) t (take (length t) (drop (length x) s))"

fun reading_parts :: "engine \<Rightarrow> part list \<Rightarrow> jstr list \<Rightarrow> jstr \<Rightarrow> bool" where
  "reading_parts E [] [] s \<longleftrightarrow> s = []"
| "reading_parts E ((k, w, t) # parts) (v # vs) s \<longleftrightarrow>
     SLASH \<notin> set v \<and>
     ((follows E (SLASH # v) t s \<and> (k = Required \<longrightarrow> v \<noteq> [])
         \<and> reading_parts E parts vs (drop (length (SLASH # v) + length t) s))
      \<or> (k = Elective \<and> follows E v t s \<and> reading_parts E parts vs (drop (length v + length t) s)))"
| "reading_parts E _ _ s \<longleftrightarrow> False"

definition reading :: "engine \<Rightarrow> jstr \<Rightarrow> part list \<Rightarrow> jstr list \<Rightarrow> jstr \<Rightarrow> bool" where
  "reading E t0 parts vs s \<longleftrightarrow> follows E [] t0 s \<and> reading_parts E parts vs (drop (length t0) s)"

text \<open>
  A source text that does not begin with a quantifier, the length of the text before the
  first slash, and the templates whose parameters are all required.
\<close>

definition unquantified :: "jstr \<Rightarrow> bool" where
  "unquantified s \<longleftrightarrow> s = [] \<or> (hd s \<noteq> STAR \<and> hd s \<noteq> QUERY)"

definition lead :: "jstr \<Rightarrow> nat" where
  "lead s = length (takeWhile (\<lambda>c. c \<noteq> SLASH) s)"

definition required_only :: "part list \<Rightarrow> bool" where
  "required_only parts \<longleftrightarrow> list_all (\<lambda>(k, w, t). k = Required) parts"

text \<open>
  A template that ends in one optional parameter, and the segment that its pattern
  captures from what follows the leading text: the text behind a slash, or the text
  itself when there is no slash.
\<close>

definition optional_template :: "jstr \<Rightarrow> jstr \<Rightarrow> jstr" where
  "optional_template t0 w = t0 @ js ''/:'' @ w @ js ''?''"

definition after_slash :: "jstr \<Rightarrow> jstr" where
  "after_slash x = (if x \<noteq> [] \<and> hd x = SLASH then tl x else x)"

text \<open>
  The parts of a template without the slash at its end, which \<open>createRouter\<close> drops: the
  slash goes from the text behind the last marker, or from the leading text when there
  is no marker, and \<open>/\<close> stands for the empty template.
\<close>

fun strip_last :: "part list \<Rightarrow> part list" where
  "strip_last [] = []"
| "strip_last [(k, w, t)] = [(k, w, strip_end_slash t)]"
| "strip_last (p # q # parts) = p # strip_last (q # parts)"

definition stripped :: "jstr \<Rightarrow> part list \<Rightarrow> jstr \<times> part list" where
  "stripped t0 parts = (if parts = [] then (or_slash (strip_end_slash t0), []) else (t0, strip_last parts))"

text \<open>
  A capture that is a piece of the string \<open>s\<close>, and a route that was compiled from a
  template.
\<close>

definition within :: "jstr \<Rightarrow> jstr option \<Rightarrow> bool" where
  "within s c = (case c of None \<Rightarrow> True | Some u \<Rightarrow> set u \<subseteq> set s)"

definition from_template :: "engine \<Rightarrow> compiled_route \<Rightarrow> bool" where
  "from_template E e \<longleftrightarrow> (\<exists>items names. pattern e = (\<lambda>s. exec E items s []) \<and> cb e = decode names)"

text \<open>The captures of the first route of a table whose pattern accepts the path.\<close>

fun first_captures :: "compiled_route list \<Rightarrow> jstr \<Rightarrow> jstr option list option" where
  "first_captures [] q = None"
| "first_captures (r # rs) q = (case pattern r q of Some ms \<Rightarrow> Some ms | None \<Rightarrow> first_captures rs q)"

section \<open>Example engines and routers\<close>

text \<open>
  Two hosts for the examples, one in development and one in production mode, both with
  a \<open>history\<close> object. They are kept simple: no code unit from 128 up has an upper-case
  form of one code unit, and an array inherits no property. The examples use ASCII
  paths and the keys \<open>categoryId\<close> and \<open>id\<close> only, for which this is what Node does.
\<close>

definition node :: engine where
  "node = \<lparr>upper = (\<lambda>c. None), array_proto = (\<lambda>key. Undefined), NODE_ENV = None, has_history = True\<rparr>"

definition production :: engine where
  "production = \<lparr>upper = (\<lambda>c. None), array_proto = (\<lambda>key. Undefined),
                  NODE_ENV = Some (js ''production''), has_history = True\<rparr>"

text \<open>The configuration of the documentation of \<open>createRouter\<close>, and its route table.\<close>

definition blog_config :: "(jstr \<times> route_value) list" where
  "blog_config =
     [(js ''home'', Template (js ''/'')),
      (js ''category'', Template (js ''/posts/:categoryId'')),
      (js ''post'', Template (js ''/posts/:categoryId/:id''))]"

definition home_items :: "item list" where
  "home_items = [Once (Chr SLASH)]"

definition category_items :: "item list" where
  "category_items = map (Once \<circ> Chr) (js ''/posts/'') @ [Once Seg_plus]"

definition post_items :: "item list" where
  "post_items = map (Once \<circ> Chr) (js ''/posts/'') @ [Once Seg_plus, Once (Chr SLASH), Once Seg_plus]"

definition blog_routes :: "engine \<Rightarrow> compiled_route list" where
  "blog_routes E =
     [\<lparr>name = js ''home'', pattern = (\<lambda>s. exec E home_items s []), cb = decode [],
       template = Some (js ''/'')\<rparr>,
      \<lparr>name = js ''category'', pattern = (\<lambda>s. exec E category_items s []),
       cb = decode [js ''categoryId''], template = Some (js ''/posts/:categoryId'')\<rparr>,
      \<lparr>name = js ''post'', pattern = (\<lambda>s. exec E post_items s []),
       cb = decode [js ''categoryId'', js ''id''], template = Some (js ''/posts/:categoryId/:id'')\<rparr>]"

definition blog :: "engine \<Rightarrow> router" where
  "blog E = \<lparr>routes = blog_routes E, search = False, prev = None, writes = [], history = []\<rparr>"

text \<open>
  A configuration with a custom matcher, \<open>{ files: [/^\/files\/([^]*)$/, file => ({ file })] }\<close>.
\<close>

definition files_pattern :: regexp where
  "files_pattern s = (if take 7 s = js ''/files/'' then Some [Some (drop 7 s)] else None)"

definition files_decoder :: decoder where
  "files_decoder ms = Inr (case ms of [] \<Rightarrow> [js ''file'' \<mapsto> js ''undefined''] | m # _ \<Rightarrow> [js ''file'' \<mapsto> match_text m])"

definition files_config :: "(jstr \<times> route_value) list" where
  "files_config = [(js ''files'', Pattern files_pattern files_decoder)]"

definition files_router :: router where
  "files_router =
     \<lparr>routes = [\<lparr>name = js ''files'', pattern = files_pattern, cb = files_decoder, template = None\<rparr>],
      search = False, prev = None, writes = [], history = []\<rparr>"

text \<open>Two templates that both accept \<open>/posts/new\<close>.\<close>

definition overlap_config :: "(jstr \<times> route_value) list" where
  "overlap_config =
     [(js ''post'', Template (js ''/posts/:id'')),
      (js ''fresh'', Template (js ''/posts/new''))]"

definition id_items :: "item list" where
  "id_items = map (Once \<circ> Chr) (js ''/posts/'') @ [Once Seg_plus]"

definition new_items :: "item list" where
  "new_items = map (Once \<circ> Chr) (js ''/posts/new'')"

definition overlap_router :: "engine \<Rightarrow> router" where
  "overlap_router E =
     \<lparr>routes =
        [\<lparr>name = js ''post'', pattern = (\<lambda>s. exec E id_items s []), cb = decode [js ''id''],
          template = Some (js ''/posts/:id'')\<rparr>,
         \<lparr>name = js ''fresh'', pattern = (\<lambda>s. exec E new_items s []), cb = decode [],
          template = Some (js ''/posts/new'')\<rparr>],
      search = False, prev = None, writes = [], history = []\<rparr>"

text \<open>
  The same two templates, the second under a name that is an array index:
  \<open>{ post: '/posts/:id', 0: '/posts/new' }\<close>; and the router that \<open>createRouter\<close> makes of
  it.
\<close>

definition index_config :: "(jstr \<times> route_value) list" where
  "index_config =
     [(js ''post'', Template (js ''/posts/:id'')),
      (js ''0'', Template (js ''/posts/new''))]"

definition index_router :: "engine \<Rightarrow> router" where
  "index_router E =
     \<lparr>routes =
        [\<lparr>name = js ''0'', pattern = (\<lambda>s. exec E new_items s []), cb = decode [],
          template = Some (js ''/posts/new'')\<rparr>,
         \<lparr>name = js ''post'', pattern = (\<lambda>s. exec E id_items s []), cb = decode [js ''id''],
          template = Some (js ''/posts/:id'')\<rparr>],
      search = False, prev = None, writes = [], history = []\<rparr>"

text \<open>The template with an optional parameter of the specification, and a single required one.\<close>

definition tag_config :: "(jstr \<times> route_value) list" where
  "tag_config = [(js ''tagged'', Template (js ''/posts/:tag?''))]"

definition tag_items :: "item list" where
  "tag_items = chars (js ''/posts'') @ [Optional (Chr SLASH), Once Seg_star]"

definition tag_router :: "engine \<Rightarrow> router" where
  "tag_router E =
     \<lparr>routes = [\<lparr>name = js ''tagged'', pattern = (\<lambda>s. exec E tag_items s []),
                 cb = decode [js ''tag''], template = Some (js ''/posts/:tag?'')\<rparr>],
      search = False, prev = None, writes = [], history = []\<rparr>"

definition post_config :: "(jstr \<times> route_value) list" where
  "post_config = [(js ''post'', Template (js ''/posts/:id''))]"

definition post_router :: "engine \<Rightarrow> router" where
  "post_router E =
     \<lparr>routes = [\<lparr>name = js ''post'', pattern = (\<lambda>s. exec E id_items s []), cb = decode [js ''id''],
                 template = Some (js ''/posts/:id'')\<rparr>],
      search = False, prev = None, writes = [], history = []\<rparr>"

section \<open>The names of a configuration\<close>

lemma set_Object_keys [simp]: "set (Object_keys obj) = fst ` set obj"
  by (auto simp: Object_keys_def)

lemma Object_keys_plain:
  "\<forall>key\<in>fst ` set obj. array_index key = None \<Longrightarrow> Object_keys obj = map fst obj"
proof -
  assume a: "\<forall>key\<in>fst ` set obj. array_index key = None"
  then have "filter (\<lambda>key. array_index key \<noteq> None) (map fst obj) = []"
    by (auto simp: filter_empty_conv)
  moreover from a have "filter (\<lambda>key. array_index key = None) (map fst obj) = map fst obj"
    by (auto simp: filter_id_conv)
  ultimately show ?thesis by (simp add: Object_keys_def)
qed

lemma Object_keys_single [simp]: "Object_keys [(n, v)] = [n]"
  by (simp add: Object_keys_def)

lemma map_of_map_filter:
  "map_of (List.map_filter (\<lambda>name. map_option (Pair name) (m name)) ks) n
   = (if n \<in> set ks then m n else None)"
proof (induction ks)
  case Nil
  then show ?case by (simp add: List.map_filter_simps)
next
  case (Cons k ks)
  then show ?case by (cases "m k") (auto simp: List.map_filter_simps)
qed

lemma map_of_entries [simp]: "map_of (entries obj) n = map_of obj n"
proof (cases "n \<in> fst ` set obj")
  case True
  then show ?thesis by (simp add: entries_def map_of_map_filter)
next
  case False
  then have "map_of obj n = None" by (simp add: map_of_eq_None_iff)
  with False show ?thesis by (simp add: entries_def map_of_map_filter)
qed

lemma map_filter_keys:
  "set ks \<subseteq> dom m \<Longrightarrow> map fst (List.map_filter (\<lambda>name. map_option (Pair name) (m name)) ks) = ks"
  by (induction ks) (auto simp: List.map_filter_simps)

lemma entries_keys: "map fst (entries obj) = Object_keys obj"
proof -
  have "set (Object_keys obj) \<subseteq> dom (map_of obj)"
    by (auto simp: dom_map_of_conv_image_fst)
  then show ?thesis
    unfolding entries_def by (rule map_filter_keys)
qed

lemma set_entries: "set (entries obj) \<subseteq> set obj"
proof
  fix x assume "x \<in> set (entries obj)"
  then obtain name where "map_option (Pair name) (map_of obj name) = Some x"
    by (auto simp: entries_def List.map_filter_def)
  then obtain v where "map_of obj name = Some v" "x = (name, v)" by auto
  then show "x \<in> set obj" by (auto dest: map_of_SomeD)
qed

lemma map_filter_same:
  "\<forall>k\<in>set ks. f k = g k \<Longrightarrow> List.map_filter f ks = List.map_filter g ks"
  by (induction ks) (simp_all add: List.map_filter_simps split: option.splits)

lemma map_filter_distinct:
  "distinct (map fst obj) \<Longrightarrow> List.map_filter (\<lambda>name. map_option (Pair name) (map_of obj name)) (map fst obj) = obj"
proof (induction obj)
  case Nil
  then show ?case by (simp add: List.map_filter_simps)
next
  case (Cons x obj)
  obtain k v where x: "x = (k, v)" by (cases x)
  with Cons.prems have k: "k \<notin> fst ` set obj" and d: "distinct (map fst obj)" by auto
  have "List.map_filter (\<lambda>name. map_option (Pair name) (map_of (x # obj) name)) (map fst obj)
        = List.map_filter (\<lambda>name. map_option (Pair name) (map_of obj name)) (map fst obj)"
    using k x by (intro map_filter_same) auto
  with Cons.IH [OF d] show ?case
    by (simp add: x List.map_filter_simps)
qed

lemma entries_plain:
  assumes "distinct (map fst obj)" and "\<forall>key\<in>fst ` set obj. array_index key = None"
  shows "entries obj = obj"
  unfolding entries_def Object_keys_plain [OF assms(2)] using assms(1) by (rule map_filter_distinct)

lemma entries_single [simp]: "entries [(n, v)] = [(n, v)]"
  by (simp add: entries_def List.map_filter_simps)

section \<open>Evaluating the examples\<close>

lemmas scan_eval = marker_at_def is_word_def Let_def js_def

lemmas escape_eval = escape_def needs_escape_def is_space_def js_def

lemmas exec_eval = same_char_def Canonicalize_def toUpperCase_def seg_len_def not_slash_def js_def

lemma compile_home:
  "compile E (n, Template (js ''/'')) =
     Inr \<lparr>name = n, pattern = (\<lambda>s. exec E home_items s []), cb = decode [], template = Some (js ''/'')\<rparr>"
proof -
  have v: "or_slash (strip_end_slash (js ''/'')) = js ''/''"
    by (simp add: or_slash_def strip_end_slash_def js_def)
  have p: "pattern_of (js ''/'') = js ''/''"
    by (simp add: pattern_of_def replace_all_def escape_eval scan_eval)
  have i: "read_items (js ''/'') = Some home_items"
    by (simp add: read_items.simps is_syntax_char_def js_def home_items_def)
  have n: "param_names (js ''/'') = []"
    by (simp add: param_names_def match_all_def scan_eval)
  show ?thesis
    by (simp only: compile.simps v Let_def p i n RegExp_def option.case sum.case)
qed

lemma compile_category:
  "compile E (n, Template (js ''/posts/:categoryId'')) =
     Inr \<lparr>name = n, pattern = (\<lambda>s. exec E category_items s []), cb = decode [js ''categoryId''],
          template = Some (js ''/posts/:categoryId'')\<rparr>"
proof -
  have v: "or_slash (strip_end_slash (js ''/posts/:categoryId'')) = js ''/posts/:categoryId''"
    by (simp add: or_slash_def strip_end_slash_def js_def)
  have e: "escape (js ''/posts/:categoryId'') = js ''/posts/'' @ [BACKSLASH, COLON] @ js ''categoryId''"
    by (simp add: escape_eval)
  have o: "replace_all [SLASH, BACKSLASH, COLON] [BACKSLASH, QUERY] (js ''/?([^/]*)'')
             (js ''/posts/'' @ [BACKSLASH, COLON] @ js ''categoryId'')
           = js ''/posts/'' @ [BACKSLASH, COLON] @ js ''categoryId''"
    by (simp add: replace_all_def scan_eval)
  have r: "replace_all [SLASH, BACKSLASH, COLON] [] (js ''/([^/]+)'')
             (js ''/posts/'' @ [BACKSLASH, COLON] @ js ''categoryId'')
           = js ''/posts/([^/]+)''"
    by (simp add: replace_all_def scan_eval)
  have p: "pattern_of (js ''/posts/:categoryId'') = js ''/posts/([^/]+)''"
    unfolding pattern_of_def e o r ..
  have i: "read_items (js ''/posts/([^/]+)'') = Some category_items"
    by (simp add: read_items.simps is_syntax_char_def js_def is_word_def category_items_def)
  have n: "param_names (js ''/posts/:categoryId'') = [js ''categoryId'']"
    by (simp add: param_names_def match_all_def scan_eval)
  show ?thesis
    by (simp only: compile.simps v Let_def p i n RegExp_def option.case sum.case)
qed

lemma compile_post:
  "compile E (n, Template (js ''/posts/:categoryId/:id'')) =
     Inr \<lparr>name = n, pattern = (\<lambda>s. exec E post_items s []),
          cb = decode [js ''categoryId'', js ''id''], template = Some (js ''/posts/:categoryId/:id'')\<rparr>"
proof -
  have v: "or_slash (strip_end_slash (js ''/posts/:categoryId/:id'')) = js ''/posts/:categoryId/:id''"
    by (simp add: or_slash_def strip_end_slash_def js_def)
  have e: "escape (js ''/posts/:categoryId/:id'')
           = js ''/posts/'' @ [BACKSLASH, COLON] @ js ''categoryId/'' @ [BACKSLASH, COLON] @ js ''id''"
    by (simp add: escape_eval)
  have o: "replace_all [SLASH, BACKSLASH, COLON] [BACKSLASH, QUERY] (js ''/?([^/]*)'')
             (js ''/posts/'' @ [BACKSLASH, COLON] @ js ''categoryId/'' @ [BACKSLASH, COLON] @ js ''id'')
           = js ''/posts/'' @ [BACKSLASH, COLON] @ js ''categoryId/'' @ [BACKSLASH, COLON] @ js ''id''"
    by (simp add: replace_all_def scan_eval)
  have r: "replace_all [SLASH, BACKSLASH, COLON] [] (js ''/([^/]+)'')
             (js ''/posts/'' @ [BACKSLASH, COLON] @ js ''categoryId/'' @ [BACKSLASH, COLON] @ js ''id'')
           = js ''/posts/([^/]+)/([^/]+)''"
    by (simp add: replace_all_def scan_eval)
  have p: "pattern_of (js ''/posts/:categoryId/:id'') = js ''/posts/([^/]+)/([^/]+)''"
    unfolding pattern_of_def e o r ..
  have i: "read_items (js ''/posts/([^/]+)/([^/]+)'') = Some post_items"
    by (simp add: read_items.simps is_syntax_char_def js_def is_word_def post_items_def)
  have n: "param_names (js ''/posts/:categoryId/:id'') = [js ''categoryId'', js ''id'']"
    by (simp add: param_names_def match_all_def scan_eval)
  show ?thesis
    by (simp only: compile.simps v Let_def p i n RegExp_def option.case sum.case)
qed

lemma createRouter_blog: "createRouter E blog_config False = Inr (blog E)"
proof -
  have "entries blog_config = blog_config"
    by (rule entries_plain) (simp_all add: blog_config_def array_index_def is_digit_def js_def)
  then show ?thesis
    by (simp only: createRouter_def blog_config_def compile_all.simps compile_home compile_category
        compile_post blog_def blog_routes_def sum.case)
qed

lemma createRouter_files: "createRouter E files_config False = Inr files_router"
  by (simp add: createRouter_def files_config_def files_router_def)

lemma compile_id:
  "compile E (n, Template (js ''/posts/:id'')) =
     Inr \<lparr>name = n, pattern = (\<lambda>s. exec E id_items s []), cb = decode [js ''id''],
          template = Some (js ''/posts/:id'')\<rparr>"
proof -
  have v: "or_slash (strip_end_slash (js ''/posts/:id'')) = js ''/posts/:id''"
    by (simp add: or_slash_def strip_end_slash_def js_def)
  have e: "escape (js ''/posts/:id'') = js ''/posts/'' @ [BACKSLASH, COLON] @ js ''id''"
    by (simp add: escape_eval)
  have o: "replace_all [SLASH, BACKSLASH, COLON] [BACKSLASH, QUERY] (js ''/?([^/]*)'')
             (js ''/posts/'' @ [BACKSLASH, COLON] @ js ''id'')
           = js ''/posts/'' @ [BACKSLASH, COLON] @ js ''id''"
    by (simp add: replace_all_def scan_eval)
  have r: "replace_all [SLASH, BACKSLASH, COLON] [] (js ''/([^/]+)'')
             (js ''/posts/'' @ [BACKSLASH, COLON] @ js ''id'')
           = js ''/posts/([^/]+)''"
    by (simp add: replace_all_def scan_eval)
  have p: "pattern_of (js ''/posts/:id'') = js ''/posts/([^/]+)''"
    unfolding pattern_of_def e o r ..
  have i: "read_items (js ''/posts/([^/]+)'') = Some id_items"
    by (simp add: read_items.simps is_syntax_char_def js_def is_word_def id_items_def)
  have n: "param_names (js ''/posts/:id'') = [js ''id'']"
    by (simp add: param_names_def match_all_def scan_eval)
  show ?thesis
    by (simp only: compile.simps v Let_def p i n RegExp_def option.case sum.case)
qed

lemma compile_new:
  "compile E (n, Template (js ''/posts/new'')) =
     Inr \<lparr>name = n, pattern = (\<lambda>s. exec E new_items s []), cb = decode [],
          template = Some (js ''/posts/new'')\<rparr>"
proof -
  have v: "or_slash (strip_end_slash (js ''/posts/new'')) = js ''/posts/new''"
    by (simp add: or_slash_def strip_end_slash_def js_def)
  have p: "pattern_of (js ''/posts/new'') = js ''/posts/new''"
    by (simp add: pattern_of_def replace_all_def escape_eval scan_eval)
  have i: "read_items (js ''/posts/new'') = Some new_items"
    by (simp add: read_items.simps is_syntax_char_def js_def is_word_def new_items_def)
  have n: "param_names (js ''/posts/new'') = []"
    by (simp add: param_names_def match_all_def scan_eval)
  show ?thesis
    by (simp only: compile.simps v Let_def p i n RegExp_def option.case sum.case)
qed

lemma createRouter_overlap: "createRouter E overlap_config False = Inr (overlap_router E)"
proof -
  have "entries overlap_config = overlap_config"
    by (rule entries_plain) (simp_all add: overlap_config_def array_index_def is_digit_def js_def)
  then show ?thesis
    by (simp only: createRouter_def overlap_config_def compile_all.simps compile_id compile_new
        overlap_router_def sum.case)
qed

section \<open>What createRouter makes of a template\<close>

subsection \<open>Scanning\<close>

lemma marker_at_other:
  "take (length pre) s \<noteq> pre \<Longrightarrow> marker_at pre suf s = None"
  by (simp add: marker_at_def Let_def)

lemma scan_skip_head:
  "pre \<noteq> [] \<Longrightarrow> hd pre \<notin> set t \<Longrightarrow> scan pre suf (t @ rest) = map Inl t @ scan pre suf rest"
proof (induction t)
  case Nil
  then show ?case by simp
next
  case (Cons c t)
  have "take (length pre) ((c # t) @ rest) \<noteq> pre"
    using Cons.prems by (cases pre) auto
  then have "marker_at pre suf ((c # t) @ rest) = None"
    by (rule marker_at_other)
  with Cons show ?case by simp
qed

lemma scan_skip:
  assumes "COLON \<in> set pre" and "COLON \<notin> set t" and "COLON \<notin> set (take (length pre - 1) rest)"
  shows "scan pre suf (t @ rest) = map Inl t @ scan pre suf rest"
  using assms(2)
proof (induction t)
  case Nil
  then show ?case by simp
next
  case (Cons c t)
  have "set (take (length pre) ((c # t) @ rest)) \<subseteq> set (c # t) \<union> set (take (length pre - 1) rest)"
  proof -
    have "set (take (length pre - length (c # t)) rest) \<subseteq> set (take (length pre - 1) rest)"
      by (rule set_take_subset_set_take) simp
    moreover have "set (take (length pre) (c # t)) \<subseteq> set (c # t)"
      by (rule set_take_subset)
    ultimately show ?thesis by (auto simp only: take_append set_append)
  qed
  with Cons.prems assms(3) have "COLON \<notin> set (take (length pre) ((c # t) @ rest))"
    by auto
  with assms(1) have "take (length pre) ((c # t) @ rest) \<noteq> pre"
    by metis
  then have "marker_at pre suf ((c # t) @ rest) = None"
    by (rule marker_at_other)
  with Cons show ?case by simp
qed

lemma takeWhile_word: 
  "list_all is_word w \<Longrightarrow> rest = [] \<or> \<not> is_word (hd rest) \<Longrightarrow> takeWhile is_word (w @ rest) = w"
  by (induction w) (cases rest; auto)+

lemma marker_at_hit:
  assumes "word w" and "rest = [] \<or> \<not> is_word (hd rest)"
  shows "marker_at pre [] (pre @ w @ rest) = Some (length (pre @ w))"
  using assms takeWhile_word [of w rest] by (simp add: marker_at_def word_def)

lemma marker_at_hit_suf:
  assumes "word w" and "suf \<noteq> []" and "\<not> is_word (hd suf)"
  shows "marker_at pre suf (pre @ w @ suf @ rest) = Some (length (pre @ w @ suf))"
proof -
  have "takeWhile is_word (w @ suf @ rest) = w"
    using assms by (intro takeWhile_word) (auto simp: word_def)
  with assms(1) show ?thesis by (simp add: marker_at_def word_def)
qed

lemma marker_at_miss:
  assumes "word w" and "rest = [] \<or> \<not> is_word (hd rest)" and "take (length suf) rest \<noteq> suf"
  shows "marker_at pre suf (pre @ w @ rest) = None"
  using assms takeWhile_word [of w rest] by (simp add: marker_at_def word_def)

lemma scan_hit:
  assumes "marker_at pre suf (m @ rest) = Some (length m)"
  shows "scan pre suf (m @ rest) = Inr m # scan pre suf rest"
proof -
  from marker_at_pos [OF assms] obtain c cs where m: "m = c # cs" by (cases m) auto
  with assms show ?thesis by simp
qed

lemma scan_miss:
  assumes "marker_at pre suf (pre @ w @ rest) = None" and "pre \<noteq> []" and "hd pre \<notin> set (tl pre @ w)"
  shows "scan pre suf (pre @ w @ rest) = map Inl (pre @ w) @ scan pre suf rest"
proof -
  from assms(2) obtain c cs where pre: "pre = c # cs" by (cases pre) auto
  have "scan pre suf (pre @ w @ rest) = Inl c # scan pre suf ((cs @ w) @ rest)"
    using assms(1) unfolding pre by simp
  also have "scan pre suf ((cs @ w) @ rest) = map Inl (cs @ w) @ scan pre suf rest"
    using assms(2,3) unfolding pre by (intro scan_skip_head) auto
  finally show ?thesis unfolding pre by simp
qed

lemma replace_all_skip:
  assumes "COLON \<in> set pre" and "COLON \<notin> set t" and "COLON \<notin> set (take (length pre - 1) rest)"
  shows "replace_all pre suf text (t @ rest) = t @ replace_all pre suf text rest"
  by (simp add: replace_all_def scan_skip [OF assms] o_def)

lemma replace_all_hit:
  assumes "marker_at pre suf (m @ rest) = Some (length m)"
  shows "replace_all pre suf text (m @ rest) = text @ replace_all pre suf text rest"
  by (simp add: replace_all_def scan_hit [OF assms])

lemma replace_all_miss:
  assumes "marker_at pre suf (pre @ w @ rest) = None" and "pre \<noteq> []" and "hd pre \<notin> set (tl pre @ w)"
  shows "replace_all pre suf text (pre @ w @ rest) = pre @ w @ replace_all pre suf text rest"
  by (simp add: replace_all_def scan_miss [OF assms] o_def)

lemma match_all_skip:
  assumes "COLON \<in> set pre" and "COLON \<notin> set t" and "COLON \<notin> set (take (length pre - 1) rest)"
  shows "match_all pre suf (t @ rest) = match_all pre suf rest"
  by (simp add: match_all_def scan_skip [OF assms] o_def)

lemma match_all_hit:
  assumes "marker_at pre suf (m @ rest) = Some (length m)"
  shows "match_all pre suf (m @ rest) = m # match_all pre suf rest"
  by (simp add: match_all_def scan_hit [OF assms])

lemma replace_all_Nil [simp]: "replace_all pre suf text [] = []"
  by (simp add: replace_all_def)

lemma match_all_Nil [simp]: "match_all pre suf [] = []"
  by (simp add: match_all_def)

subsection \<open>Escaping\<close>

lemma escape_append: "escape (a @ b) = escape a @ escape b"
  by (simp add: escape_def)

lemma escape_Nil [simp]: "escape [] = []"
  by (simp add: escape_def)

lemma is_word_plain: "is_word c \<Longrightarrow> \<not> needs_escape c"
  by (auto simp: is_word_def needs_escape_def is_space_def js_def)

lemma escape_word: "list_all is_word w \<Longrightarrow> escape w = w"
  by (induction w) (auto simp: escape_def is_word_plain)

lemma escape_marker: "word w \<Longrightarrow> escape (marker k w) = [SLASH, BACKSLASH, COLON] @ w @ (case k of Required \<Rightarrow> [] | Elective \<Rightarrow> [BACKSLASH, QUERY])"
proof -
  assume "word w"
  then have w: "escape w = w" by (simp add: word_def escape_word)
  have a: "escape (js ''/:'') = [SLASH, BACKSLASH, COLON]"
    by (simp add: escape_eval)
  have b: "escape (js ''?'') = [BACKSLASH, QUERY]"
    by (simp add: escape_eval)
  show ?thesis
    by (cases k) (simp_all add: escape_append a b w)
qed

lemma escape_markers: "list_all well_formed parts \<Longrightarrow> escape (markers parts) = escaped parts"
proof (induction parts)
  case Nil
  then show ?case by simp
next
  case (Cons p parts)
  obtain k w t where p: "p = (k, w, t)" by (cases p)
  with Cons show ?case
    by (simp add: escape_append escape_marker)
qed

lemma escape_colon: "COLON \<notin> set t \<Longrightarrow> COLON \<notin> set (escape t)"
  by (induction t) (auto simp: escape_def)

lemma escape_empty [simp]: "escape t = [] \<longleftrightarrow> t = []"
  by (cases t) (auto simp: escape_def)

lemma js_marks:
  "js ''/:'' = [SLASH, COLON]" "js ''?'' = [QUERY]" "js ''/'' = [SLASH]"
  "js ''/?([^/]*)'' = [SLASH, QUERY, 40, 91, 94, SLASH, 93, STAR, 41]"
  "js ''/([^/]+)'' = [SLASH, 40, 91, 94, SLASH, 93, PLUS, 41]"
  "js ''([^/]*)'' = [40, 91, 94, SLASH, 93, STAR, 41]"
  "js ''([^/]+)'' = [40, 91, 94, SLASH, 93, PLUS, 41]"
  by (simp_all add: js_def)

lemma markers_head: "markers parts = [] \<or> (\<exists>x. markers parts = SLASH # COLON # x)"
proof (cases parts)
  case Nil
  then show ?thesis by simp
next
  case (Cons p ps)
  obtain k w t where "p = (k, w, t)" by (cases p)
  with Cons show ?thesis by (cases k) (simp_all add: js_marks)
qed

lemma escaped_head: "escaped parts = [] \<or> (\<exists>x. escaped parts = SLASH # BACKSLASH # COLON # x)"
proof (cases parts)
  case Nil
  then show ?thesis by simp
next
  case (Cons p ps)
  obtain k w t where "p = (k, w, t)" by (cases p)
  with Cons show ?thesis by simp
qed

lemma halfway_head:
  "halfway parts = [] \<or> (\<exists>x. halfway parts = SLASH # BACKSLASH # x) \<or> (\<exists>x. halfway parts = SLASH # QUERY # x)"
proof (cases parts)
  case Nil
  then show ?thesis by simp
next
  case (Cons p ps)
  obtain k w t where "p = (k, w, t)" by (cases p)
  with Cons show ?thesis by (cases k) (simp_all add: js_marks)
qed

lemma source_head:
  "source parts = [] \<or> (\<exists>x. source parts = SLASH # 40 # x) \<or> (\<exists>x. source parts = SLASH # QUERY # x)"
proof (cases parts)
  case Nil
  then show ?thesis by simp
next
  case (Cons p ps)
  obtain k w t where "p = (k, w, t)" by (cases p)
  with Cons show ?thesis by (cases k) (simp_all add: js_marks)
qed

lemma not_word_marks: "\<not> is_word SLASH" "\<not> is_word QUERY" "\<not> is_word BACKSLASH" "\<not> is_word COLON"
  by (simp_all add: is_word_def)

subsection \<open>The names\<close>

lemma names_markers:
  "list_all well_formed parts
   \<Longrightarrow> match_all [SLASH, COLON] [] (markers parts) = map (\<lambda>(k, w, t). [SLASH, COLON] @ w) parts"
proof (induction parts)
  case Nil
  then show ?case by simp
next
  case (Cons p parts)
  obtain k w t where p: "p = (k, w, t)" by (cases p)
  define q where "q = (case k of Required \<Rightarrow> [] | Elective \<Rightarrow> [QUERY])"
  from Cons.prems p have w: "word w" and t: "literal t"
    and r: "k = Required \<Longrightarrow> t = [] \<or> (\<not> is_word (hd t) \<and> hd t \<noteq> QUERY)"
    by auto
  let ?P = "[SLASH, COLON]"
  let ?rest = "q @ t @ markers parts"
  have m: "markers (p # parts) = (?P @ w) @ ?rest"
    unfolding p q_def by (cases k) (simp_all add: js_marks)
  have "?rest = [] \<or> \<not> is_word (hd ?rest)"
  proof (cases k)
    case Required
    with r markers_head [of parts] show ?thesis
      by (cases t) (auto simp: q_def not_word_marks)
  next
    case Elective
    then show ?thesis by (simp add: q_def not_word_marks)
  qed
  from marker_at_hit [OF w this, of ?P]
  have "match_all ?P [] ((?P @ w) @ ?rest) = (?P @ w) # match_all ?P [] ?rest"
    by (intro match_all_hit) simp
  also have "match_all ?P [] ?rest = match_all ?P [] (markers parts)"
  proof -
    have "COLON \<notin> set (q @ t)"
      using t by (cases k) (auto simp: q_def literal_def)
    moreover have "COLON \<notin> set (take (length ?P - 1) (markers parts))"
      using markers_head [of parts] by auto
    ultimately show ?thesis
      using match_all_skip [of ?P "q @ t" "markers parts" "[]"] by simp
  qed
  also have "\<dots> = map (\<lambda>(k, w, t). ?P @ w) parts"
    using Cons by simp
  finally show ?case
    unfolding m by (simp add: p)
qed

lemma param_names_render:
  assumes "literal t0" and "list_all well_formed parts"
  shows "param_names (render t0 parts) = map (\<lambda>(k, w, t). w) parts"
proof -
  have "match_all [SLASH, COLON] [] (t0 @ markers parts) = match_all [SLASH, COLON] [] (markers parts)"
    using assms(1) markers_head [of parts]
    by (intro match_all_skip) (auto simp: literal_def)
  then show ?thesis
    unfolding param_names_def render_def js_marks
    by (simp add: names_markers [OF assms(2)] o_def split_def)
qed

subsection \<open>The two replacements\<close>

lemma escape_after_required:
  assumes "t = [] \<or> (\<not> is_word (hd t) \<and> hd t \<noteq> QUERY)"
    and "x = [] \<or> (\<exists>y. x = SLASH # y)"
  shows "(escape t @ x = [] \<or> \<not> is_word (hd (escape t @ x)))
       \<and> take (length [BACKSLASH, QUERY]) (escape t @ x) \<noteq> [BACKSLASH, QUERY]"
proof (cases t)
  case Nil
  with assms(2) show ?thesis by (auto simp: not_word_marks)
next
  case (Cons c t')
  with assms(1) have c: "\<not> is_word c" "c \<noteq> QUERY" by auto
  have "needs_escape BACKSLASH" by (simp add: needs_escape_def)
  with c show ?thesis
    unfolding Cons by (auto simp: escape_def not_word_marks)
qed

lemma word_no_slash: "word w \<Longrightarrow> SLASH \<notin> set w"
  by (auto simp: word_def list_all_iff not_word_marks)

lemma replace_optional:
  "list_all well_formed parts
   \<Longrightarrow> replace_all [SLASH, BACKSLASH, COLON] [BACKSLASH, QUERY] (js ''/?([^/]*)'') (escaped parts)
       = halfway parts"
proof (induction parts)
  case Nil
  then show ?case by simp
next
  case (Cons p parts)
  obtain k w t where p: "p = (k, w, t)" by (cases p)
  from Cons.prems p have w: "word w" and t: "literal t"
    and r: "k = Required \<Longrightarrow> t = [] \<or> (\<not> is_word (hd t) \<and> hd t \<noteq> QUERY)"
    by auto
  let ?P = "[SLASH, BACKSLASH, COLON]" and ?S = "[BACKSLASH, QUERY]" and ?O = "js ''/?([^/]*)''"
  have IH: "replace_all ?P ?S ?O (escaped parts) = halfway parts"
    using Cons by simp
  have skip: "replace_all ?P ?S ?O (escape t @ escaped parts) = escape t @ halfway parts"
  proof -
    have "COLON \<notin> set (escape t)"
      using t by (simp add: literal_def escape_colon)
    moreover have "COLON \<notin> set (take (length ?P - 1) (escaped parts))"
      using escaped_head [of parts] by auto
    ultimately show ?thesis
      using replace_all_skip [of ?P "escape t" "escaped parts" ?S ?O] IH by simp
  qed
  show ?case
  proof (cases k)
    case Required
    from escape_after_required [OF r [OF Required], of "escaped parts"] escaped_head [of parts]
    have a: "escape t @ escaped parts = [] \<or> \<not> is_word (hd (escape t @ escaped parts))"
      and b: "take (length ?S) (escape t @ escaped parts) \<noteq> ?S"
      by auto
    have "marker_at ?P ?S (?P @ w @ escape t @ escaped parts) = None"
      using w a b by (rule marker_at_miss)
    then have "replace_all ?P ?S ?O (?P @ w @ escape t @ escaped parts)
               = ?P @ w @ replace_all ?P ?S ?O (escape t @ escaped parts)"
      using word_no_slash [OF w] by (intro replace_all_miss) auto
    with skip show ?thesis
      by (simp add: p Required)
  next
    case Elective
    have "marker_at ?P ?S (?P @ w @ ?S @ escape t @ escaped parts) = Some (length (?P @ w @ ?S))"
      using w by (intro marker_at_hit_suf) (auto simp: not_word_marks)
    then have "replace_all ?P ?S ?O ((?P @ w @ ?S) @ escape t @ escaped parts)
               = ?O @ replace_all ?P ?S ?O (escape t @ escaped parts)"
      by (intro replace_all_hit) simp
    with skip show ?thesis
      by (simp add: p Elective)
  qed
qed

lemma replace_required:
  "list_all well_formed parts
   \<Longrightarrow> replace_all [SLASH, BACKSLASH, COLON] [] (js ''/([^/]+)'') (halfway parts) = source parts"
proof (induction parts)
  case Nil
  then show ?case by simp
next
  case (Cons p parts)
  obtain k w t where p: "p = (k, w, t)" by (cases p)
  from Cons.prems p have w: "word w" and t: "literal t"
    and r: "k = Required \<Longrightarrow> t = [] \<or> (\<not> is_word (hd t) \<and> hd t \<noteq> QUERY)"
    by auto
  let ?P = "[SLASH, BACKSLASH, COLON]" and ?R = "js ''/([^/]+)''"
  have IH: "replace_all ?P [] ?R (halfway parts) = source parts"
    using Cons by simp
  have tail: "COLON \<notin> set (take (length ?P - 1) (halfway parts))"
    using halfway_head [of parts] by auto
  have c: "COLON \<notin> set (escape t)"
    using t by (simp add: literal_def escape_colon)
  show ?case
  proof (cases k)
    case Required
    have skip: "replace_all ?P [] ?R (escape t @ halfway parts) = escape t @ source parts"
      using replace_all_skip [of ?P "escape t" "halfway parts" "[]" ?R] c tail IH by simp
    have "halfway parts = [] \<or> (\<exists>y. halfway parts = SLASH # y)"
      using halfway_head [of parts] by auto
    from escape_after_required [OF r [OF Required] this]
    have a: "escape t @ halfway parts = [] \<or> \<not> is_word (hd (escape t @ halfway parts))"
      by auto
    have "marker_at ?P [] ((?P @ w) @ escape t @ halfway parts) = Some (length (?P @ w))"
      using marker_at_hit [OF w a, of ?P] by simp
    then have "replace_all ?P [] ?R ((?P @ w) @ escape t @ halfway parts)
               = ?R @ replace_all ?P [] ?R (escape t @ halfway parts)"
      by (rule replace_all_hit)
    with skip show ?thesis
      by (simp add: p Required)
  next
    case Elective
    have "COLON \<notin> set (js ''/?([^/]*)'' @ escape t)"
      using c by (simp add: js_marks)
    from replace_all_skip [of ?P "js ''/?([^/]*)'' @ escape t" "halfway parts" "[]" ?R, OF _ this tail] IH
    show ?thesis
      by (simp add: p Elective)
  qed
qed

lemma pattern_of_render:
  assumes "literal t0" and "list_all well_formed parts"
  shows "pattern_of (render t0 parts) = escape t0 @ source parts"
proof -
  let ?P = "[SLASH, BACKSLASH, COLON]"
  have c: "COLON \<notin> set (escape t0)"
    using assms(1) by (simp add: literal_def escape_colon)
  have "escape (render t0 parts) = escape t0 @ escaped parts"
    by (simp add: render_def escape_append escape_markers [OF assms(2)])
  moreover have "replace_all ?P [BACKSLASH, QUERY] (js ''/?([^/]*)'') (escape t0 @ escaped parts)
                 = escape t0 @ halfway parts"
    using replace_all_skip [of ?P "escape t0" "escaped parts" "[BACKSLASH, QUERY]" "js ''/?([^/]*)''"]
      c escaped_head [of parts] replace_optional [OF assms(2)] by auto
  moreover have "replace_all ?P [] (js ''/([^/]+)'') (escape t0 @ halfway parts)
                 = escape t0 @ source parts"
    using replace_all_skip [of ?P "escape t0" "halfway parts" "[]" "js ''/([^/]+)''"]
      c halfway_head [of parts] replace_required [OF assms(2)] by auto
  ultimately show ?thesis
    by (simp add: pattern_of_def)
qed

subsection \<open>Reading the pattern\<close>

lemma plain_char:
  assumes "\<not> needs_escape c" and "c \<noteq> STAR"
  shows "\<not> is_syntax_char c" "c \<noteq> BACKSLASH" "c \<noteq> 40" "c \<noteq> QUERY"
  using assms by (auto simp: needs_escape_def is_syntax_char_def js_def)

lemma escaped_not_word: "needs_escape c \<Longrightarrow> \<not> is_word c"
  using is_word_plain by blast

lemma read_atom_plain:
  assumes "\<not> needs_escape c" and "c \<noteq> STAR"
  shows "read_atom (c # cs) = Some (Chr c, cs)"
proof -
  have "take 7 (c # cs) \<noteq> js ''([^/]*)''" "take 7 (c # cs) \<noteq> js ''([^/]+)''"
    using plain_char(3) [OF assms] by (auto simp: js_marks)
  with plain_char [OF assms] show ?thesis by simp
qed

lemma read_atom_escaped: "needs_escape c \<Longrightarrow> read_atom (BACKSLASH # c # cs) = Some (Chr c, cs)"
  by (simp add: escaped_not_word)

lemma read_items_once:
  "read_atom s = Some (a, r) \<Longrightarrow> unquantified r \<Longrightarrow> read_items s = map_option (Cons (Once a)) (read_items r)"
  by (subst read_items.simps) (auto simp: unquantified_def)

lemma read_items_optional:
  "read_atom s = Some (a, QUERY # r) \<Longrightarrow> read_items s = map_option (Cons (Optional a)) (read_items r)"
  by (subst read_items.simps) auto

lemma unquantified_escape:
  assumes "literal t" and "unquantified x"
  shows "unquantified (escape t @ x)"
proof (cases t)
  case Nil
  with assms(2) show ?thesis by simp
next
  case (Cons c t')
  with assms(1) have "c \<noteq> STAR" by (simp add: literal_def)
  then show ?thesis
    unfolding Cons using plain_char(4) [of c]
    by (auto simp: unquantified_def escape_def)
qed

lemma read_items_chars:
  assumes "literal t" and "unquantified x"
  shows "read_items (escape t @ x) = map_option ((@) (chars t)) (read_items x)"
  using assms(1)
proof (induction t)
  case Nil
  show ?case by (simp add: chars_def option.map_ident)
next
  case (Cons c t)
  from Cons.prems have t: "literal t" and c: "c \<noteq> STAR"
    by (simp_all add: literal_def)
  have u: "unquantified (escape t @ x)"
    using t assms(2) by (rule unquantified_escape)
  have "read_items (escape (c # t) @ x) = map_option (Cons (Once (Chr c))) (read_items (escape t @ x))"
  proof (cases "needs_escape c")
    case True
    then have "escape (c # t) @ x = BACKSLASH # c # escape t @ x" by (simp add: escape_def)
    with read_items_once [OF read_atom_escaped [OF True] u] show ?thesis by simp
  next
    case False
    then have "escape (c # t) @ x = c # escape t @ x" by (simp add: escape_def)
    with read_items_once [OF read_atom_plain [OF False c] u] show ?thesis by simp
  qed
  also have "\<dots> = map_option ((@) (chars (c # t))) (read_items x)"
    by (cases "read_items x") (simp_all add: Cons.IH [OF t] chars_def)
  finally show ?case .
qed

lemma read_items_group:
  assumes "unquantified x"
  shows "read_items ((case k of Required \<Rightarrow> js ''/([^/]+)'' | Elective \<Rightarrow> js ''/?([^/]*)'') @ x)
         = map_option ((@) (group k)) (read_items x)"
proof (cases k)
  case Required
  have 1: "read_atom (SLASH # [40, 91, 94, SLASH, 93, PLUS, 41] @ x) = Some (Chr SLASH, [40, 91, 94, SLASH, 93, PLUS, 41] @ x)"
    by (simp add: js_marks is_syntax_char_def js_def)
  have 2: "read_atom ([40, 91, 94, SLASH, 93, PLUS, 41] @ x) = Some (Seg_plus, x)"
    by (simp add: js_marks)
  have "unquantified ([40, 91, 94, SLASH, 93, PLUS, 41] @ x)"
    by (simp add: unquantified_def)
  from read_items_once [OF 1 this] read_items_once [OF 2 assms]
  show ?thesis
    by (cases "read_items x") (simp_all add: Required js_marks)
next
  case Elective
  have 1: "read_atom (SLASH # QUERY # [40, 91, 94, SLASH, 93, STAR, 41] @ x) = Some (Chr SLASH, QUERY # [40, 91, 94, SLASH, 93, STAR, 41] @ x)"
    by (simp add: js_marks is_syntax_char_def js_def)
  have 2: "read_atom ([40, 91, 94, SLASH, 93, STAR, 41] @ x) = Some (Seg_star, x)"
    by (simp add: js_marks)
  from read_items_optional [OF 1] read_items_once [OF 2 assms]
  show ?thesis
    by (cases "read_items x") (simp_all add: Elective js_marks)
qed

lemma unquantified_source: "unquantified (source parts)"
  using source_head [of parts] by (auto simp: unquantified_def)

lemma read_items_source:
  "list_all well_formed parts \<Longrightarrow> read_items (source parts) = Some (groups parts)"
proof (induction parts)
  case Nil
  show ?case by (simp add: read_items.simps)
next
  case (Cons p parts)
  obtain k w t where p: "p = (k, w, t)" by (cases p)
  from Cons.prems p have t: "literal t" by simp
  have u: "unquantified (escape t @ source parts)"
    using t unquantified_source by (rule unquantified_escape)
  have "read_items (source (p # parts)) = map_option ((@) (group k)) (read_items (escape t @ source parts))"
    using read_items_group [OF u, of k] by (simp add: p)
  also have "read_items (escape t @ source parts) = map_option ((@) (chars t)) (read_items (source parts))"
    using t unquantified_source by (rule read_items_chars)
  also have "read_items (source parts) = Some (groups parts)"
    using Cons by simp
  finally show ?case by (simp add: p)
qed

lemma read_items_render:
  assumes "literal t0" and "list_all well_formed parts"
  shows "read_items (pattern_of (render t0 parts)) = Some (items_of t0 parts)"
  by (simp add: pattern_of_render [OF assms] read_items_chars [OF assms(1) unquantified_source]
      read_items_source [OF assms(2)] items_of_def)

subsection \<open>The compiled route\<close>

lemma compile_render:
  assumes "literal t0" and "list_all well_formed parts"
    and "render t0 parts \<noteq> []" and "last (render t0 parts) \<noteq> SLASH"
  shows "compile E (n, Template (render t0 parts)) =
           Inr \<lparr>name = n, pattern = (\<lambda>s. exec E (items_of t0 parts) s []),
                cb = decode (map (\<lambda>(k, w, t). w) parts), template = Some (render t0 parts)\<rparr>"
proof -
  have v: "or_slash (strip_end_slash (render t0 parts)) = render t0 parts"
    using assms(3,4) by (simp add: or_slash_def strip_end_slash_def)
  show ?thesis
    by (simp only: compile.simps v Let_def read_items_render [OF assms(1,2)]
        param_names_render [OF assms(1,2)] RegExp_def option.case sum.case)
qed

lemma compile_template:
  assumes "or_slash (strip_end_slash T) = render t0 parts" and "literal t0" and "list_all well_formed parts"
  shows "compile E (n, Template T) =
           Inr \<lparr>name = n, pattern = (\<lambda>s. exec E (items_of t0 parts) s []),
                cb = decode (map (\<lambda>(k, w, t). w) parts), template = Some (render t0 parts)\<rparr>"
  by (simp only: compile.simps assms(1) Let_def read_items_render [OF assms(2,3)]
      param_names_render [OF assms(2,3)] RegExp_def option.case sum.case)

section \<open>Matching\<close>

lemma Canonicalize_slash: "Canonicalize E x = SLASH \<longleftrightarrow> x = SLASH"
  by (auto simp: Canonicalize_def toUpperCase_def split: option.splits if_splits)

lemma same_char_refl [simp]: "same_char E c c"
  by (simp add: same_char_def)

lemma same_char_slash [simp]: "same_char E SLASH x \<longleftrightarrow> x = SLASH"
  using Canonicalize_slash [of E x] Canonicalize_slash [of E SLASH] by (auto simp: same_char_def)

lemma same_char_slash' [simp]: "same_char E c SLASH \<longleftrightarrow> c = SLASH"
  using Canonicalize_slash [of E c] Canonicalize_slash [of E SLASH] by (auto simp: same_char_def)

lemma not_slash_iff [simp]: "not_slash E x \<longleftrightarrow> x \<noteq> SLASH"
  by (simp add: not_slash_def)

lemma seg_len_lead: "seg_len E s = lead s"
proof -
  have "not_slash E = (\<lambda>c. c \<noteq> SLASH)" by (rule ext) simp
  then show ?thesis by (simp add: seg_len_def lead_def)
qed

lemma lead_append: "lead (a @ b) = (if SLASH \<in> set a then lead a else length a + lead b)"
  by (induction a) (auto simp: lead_def)

lemma lead_free: "SLASH \<notin> set a \<Longrightarrow> lead a = length a"
  by (induction a) (auto simp: lead_def)

lemma lead_Nil [simp]: "lead [] = 0"
  by (simp add: lead_def)

lemma lead_slash [simp]: "lead (SLASH # s) = 0"
  by (simp add: lead_def)

lemma lead_drop: "d \<le> lead s \<Longrightarrow> lead (drop d s) = lead s - d"
proof (induction s arbitrary: d)
  case Nil
  then show ?case by simp
next
  case (Cons c s)
  then show ?case by (cases d) (auto simp: lead_def split: if_splits)
qed

lemma lead_same:
  "list_all2 (same_char E) t u \<Longrightarrow> lead u = lead t \<and> (SLASH \<in> set u \<longleftrightarrow> SLASH \<in> set t)"
proof (induction t u rule: list_all2_induct)
  case Nil
  then show ?case by simp
next
  case (Cons c t x u)
  then show ?case by (auto simp: lead_def)
qed

subsection \<open>Backtracking\<close>

lemma try_down_first:
  "lo \<le> a \<Longrightarrow> a \<le> hi \<Longrightarrow> f a = Some r \<Longrightarrow> (\<And>j. a < j \<Longrightarrow> j \<le> hi \<Longrightarrow> f j = None)
   \<Longrightarrow> try_down f lo hi = Some r"
proof (induction hi)
  case 0
  then show ?case by simp
next
  case (Suc h)
  show ?case
  proof (cases "a = Suc h")
    case True
    with Suc.prems show ?thesis by simp
  next
    case False
    with Suc.prems have "a \<le> h" by simp
    moreover have "f (Suc h) = None" using Suc.prems(4) [of "Suc h"] False Suc.prems(2) by simp
    ultimately show ?thesis using Suc by simp
  qed
qed

lemma try_down_Some:
  "try_down f lo hi = Some r \<Longrightarrow> \<exists>j. lo \<le> j \<and> j \<le> hi \<and> f j = Some r"
proof (induction hi)
  case 0
  then show ?case by (auto split: if_splits)
next
  case (Suc h)
  show ?case
  proof (cases "Suc h < lo")
    case True
    with Suc.prems show ?thesis by simp
  next
    case False
    show ?thesis
    proof (cases "f (Suc h)")
      case None
      with False Suc.prems have "try_down f lo h = Some r" by simp
      from Suc.IH [OF this] show ?thesis by (meson le_SucI)
    next
      case (Some x)
      with False Suc.prems have "f (Suc h) = Some r" by simp
      with False show ?thesis by (intro exI [of _ "Suc h"]) simp
    qed
  qed
qed

lemma try_down_None:
  "(\<And>j. lo \<le> j \<Longrightarrow> j \<le> hi \<Longrightarrow> f j = None) \<Longrightarrow> try_down f lo hi = None"
  by (induction hi) auto

lemma try_down_exists:
  "lo \<le> j \<Longrightarrow> j \<le> hi \<Longrightarrow> f j = Some r \<Longrightarrow> \<exists>r'. try_down f lo hi = Some r'"
proof (induction hi)
  case 0
  then show ?case by simp
next
  case (Suc h)
  show ?case
  proof (cases "j = Suc h")
    case True
    with Suc.prems show ?thesis by simp
  next
    case False
    with Suc.prems have "j \<le> h" by simp
    from Suc.IH [OF Suc.prems(1) this Suc.prems(3)] obtain r' where "try_down f lo h = Some r'" ..
    moreover from Suc.prems(1) \<open>j \<le> h\<close> have "\<not> Suc h < lo" by simp
    ultimately show ?thesis by (cases "f (Suc h)") simp_all
  qed
qed

subsection \<open>Literal text\<close>

lemma exec_chars:
  "exec E (chars t @ r) s caps =
     (if length t \<le> length s \<and> list_all2 (same_char E) t (take (length t) s)
      then exec E r (drop (length t) s) caps else None)"
proof (induction t arbitrary: s)
  case Nil
  then show ?case by (simp add: chars_def)
next
  case (Cons c t)
  have "chars (c # t) = Once (Chr c) # chars t" by (simp add: chars_def)
  with Cons show ?case by (cases s) auto
qed

lemma list_all2_same_refl: "list_all2 (same_char E) t t"
  by (simp add: list_all2_same)

lemma exec_chars_self: "exec E (chars t @ r) (t @ s) caps = exec E r s caps"
  by (simp add: exec_chars list_all2_same_refl)

subsection \<open>The pattern of a template accepts the paths that have a reading\<close>

lemma take_lead: "j \<le> lead y \<Longrightarrow> SLASH \<notin> set (take j y)"
proof (induction y arbitrary: j)
  case Nil
  then show ?case by simp
next
  case (Cons c y)
  then show ?case by (cases j) (auto simp: lead_def split: if_splits)
qed

lemma lead_ge: "SLASH \<notin> set v \<Longrightarrow> length v \<le> lead (v @ y)"
  by (simp add: lead_append)

lemma lead_le_length: "lead y \<le> length y"
  by (simp add: lead_def length_takeWhile_le)

lemma segment_reading:
  assumes "try_down (\<lambda>j. exec E (chars t @ r) (drop j y) (Some (take j y) # caps)) lo (seg_len E y) = Some ms"
  shows "\<exists>v. SLASH \<notin> set v \<and> lo \<le> length v \<and> follows E v t y
             \<and> exec E r (drop (length v + length t) y) (Some v # caps) = Some ms"
proof -
  from try_down_Some [OF assms] obtain j where j: "lo \<le> j" "j \<le> seg_len E y"
    and x: "exec E (chars t @ r) (drop j y) (Some (take j y) # caps) = Some ms"
    by blast
  let ?v = "take j y"
  from j(2) have jl: "j \<le> lead y" by (simp add: seg_len_lead)
  with lead_le_length [of y] have len: "length ?v = j" by simp
  from x have le: "length t \<le> length (drop j y)"
    and same: "list_all2 (same_char E) t (take (length t) (drop j y))"
    and rest: "exec E r (drop (length t) (drop j y)) (Some ?v # caps) = Some ms"
    by (auto simp: exec_chars split: if_splits)
  have "follows E ?v t y"
    using le same len by (simp add: follows_def)
  moreover have "drop (length t) (drop j y) = drop (length ?v + length t) y"
    using len by (simp add: add.commute)
  ultimately show ?thesis
    using take_lead [OF jl] j(1) len rest by (intro exI [of _ ?v]) simp
qed

lemma reading_segment:
  assumes "SLASH \<notin> set v" and "lo \<le> length v" and "follows E v t y"
    and "exec E r (drop (length v + length t) y) (Some v # caps) = Some ms"
  shows "\<exists>ms'. try_down (\<lambda>j. exec E (chars t @ r) (drop j y) (Some (take j y) # caps)) lo (seg_len E y) = Some ms'"
proof -
  from assms(3) have tk: "take (length v) y = v" and le: "length v + length t \<le> length y"
    and same: "list_all2 (same_char E) t (take (length t) (drop (length v) y))"
    by (simp_all add: follows_def)
  have "y = v @ drop (length v) y"
    using tk by (metis append_take_drop_id)
  then have "length v \<le> lead y"
    using lead_ge [OF assms(1), of "drop (length v) y"] by simp
  then have hi: "length v \<le> seg_len E y" by (simp add: seg_len_lead)
  have "exec E (chars t @ r) (drop (length v) y) (Some (take (length v) y) # caps) = Some ms"
    using le same assms(4) by (simp add: exec_chars tk add.commute)
  from try_down_exists [OF assms(2) hi, of "\<lambda>j. exec E (chars t @ r) (drop j y) (Some (take j y) # caps)", OF this]
  show ?thesis .
qed

lemma follows_slash: "follows E v t xs \<Longrightarrow> follows E (SLASH # v) t (SLASH # xs)"
  by (simp add: follows_def)

lemma exec_once_slash:
  "exec E (Once (Chr SLASH) # r) s caps = Some ms \<Longrightarrow> \<exists>xs. s = SLASH # xs \<and> exec E r xs caps = Some ms"
  by (cases s) (auto simp del: exec.simps simp add: exec.simps(2) split: if_splits)

lemma exec_optional_slash:
  assumes "exec E (Optional (Chr SLASH) # r) s caps = Some ms"
  shows "(\<exists>xs. s = SLASH # xs \<and> exec E r xs caps = Some ms) \<or> exec E r s caps = Some ms"
proof -
  let ?inner = "case s of [] \<Rightarrow> None | x # xs \<Rightarrow> if same_char E SLASH x then exec E r xs caps else None"
  have u: "exec E (Optional (Chr SLASH) # r) s caps = (case ?inner of Some m \<Rightarrow> Some m | None \<Rightarrow> exec E r s caps)"
    by (rule exec.simps)
  show ?thesis
  proof (cases ?inner)
    case None
    with u assms have "exec E r s caps = Some ms" by (simp only: option.case)
    then show ?thesis ..
  next
    case (Some x)
    with u assms have "?inner = Some ms" by (simp only: option.case)
    then have "\<exists>xs. s = SLASH # xs \<and> exec E r xs caps = Some ms"
      by (cases s) (auto simp del: exec.simps split: if_splits)
    then show ?thesis ..
  qed
qed

lemma exec_reading:
  "exec E (groups parts) s caps = Some ms \<Longrightarrow> \<exists>vs. ms = rev caps @ map Some vs \<and> reading_parts E parts vs s"
proof (induction parts arbitrary: s caps)
  case Nil
  then have "s = []" "ms = rev caps" by (auto split: if_splits)
  then have "ms = rev caps @ map Some [] \<and> reading_parts E [] [] s" by simp
  then show ?case by blast
next
  case (Cons p parts)
  obtain k w t where p: "p = (k, w, t)" by (cases p)
  let ?R = "chars t @ groups parts"
  have step: "\<exists>vs. ms = rev caps @ map Some (v # vs) \<and> reading_parts E parts vs (drop (length v + length t) y)"
    if "exec E (groups parts) (drop (length v + length t) y) (Some v # caps) = Some ms" for v y
    using Cons.IH [OF that] by auto
  show ?case
  proof (cases k)
    case Required
    with Cons.prems p have "exec E (Once (Chr SLASH) # Once Seg_plus # ?R) s caps = Some ms"
      by simp
    from exec_once_slash [OF this] obtain xs where s: "s = SLASH # xs"
      and x: "exec E (Once Seg_plus # ?R) xs caps = Some ms"
      by blast
    from x have "try_down (\<lambda>j. exec E ?R (drop j xs) (Some (take j xs) # caps)) 1 (seg_len E xs) = Some ms"
      by (simp only: exec.simps)
    from segment_reading [OF this] obtain v where v: "SLASH \<notin> set v" "1 \<le> length v" "follows E v t xs"
      and r: "exec E (groups parts) (drop (length v + length t) xs) (Some v # caps) = Some ms"
      by blast
    from step [OF r] obtain vs where ms: "ms = rev caps @ map Some (v # vs)"
      and rd: "reading_parts E parts vs (drop (length v + length t) xs)"
      by blast
    from v(2) have "v \<noteq> []" by auto
    with v(1) follows_slash [OF v(3)] rd have "reading_parts E (p # parts) (v # vs) s"
      by (simp add: p s)
    with ms show ?thesis by blast
  next
    case Elective
    with Cons.prems p have "exec E (Optional (Chr SLASH) # Once Seg_star # ?R) s caps = Some ms"
      by simp
    from exec_optional_slash [OF this] show ?thesis
    proof
      assume "\<exists>xs. s = SLASH # xs \<and> exec E (Once Seg_star # ?R) xs caps = Some ms"
      then obtain xs where s: "s = SLASH # xs" and x: "exec E (Once Seg_star # ?R) xs caps = Some ms"
        by blast
      from x have "try_down (\<lambda>j. exec E ?R (drop j xs) (Some (take j xs) # caps)) 0 (seg_len E xs) = Some ms"
        by (simp only: exec.simps)
      from segment_reading [OF this] obtain v where v: "SLASH \<notin> set v" "follows E v t xs"
        and r: "exec E (groups parts) (drop (length v + length t) xs) (Some v # caps) = Some ms"
        by blast
      from step [OF r] obtain vs where ms: "ms = rev caps @ map Some (v # vs)"
        and rd: "reading_parts E parts vs (drop (length v + length t) xs)"
        by blast
      from v(1) follows_slash [OF v(2)] rd Elective have "reading_parts E (p # parts) (v # vs) s"
        by (simp add: p s)
      with ms show ?thesis by blast
    next
      assume x: "exec E (Once Seg_star # ?R) s caps = Some ms"
      then have "try_down (\<lambda>j. exec E ?R (drop j s) (Some (take j s) # caps)) 0 (seg_len E s) = Some ms"
        by (simp only: exec.simps)
      from segment_reading [OF this] obtain v where v: "SLASH \<notin> set v" "follows E v t s"
        and r: "exec E (groups parts) (drop (length v + length t) s) (Some v # caps) = Some ms"
        by blast
      from step [OF r] obtain vs where ms: "ms = rev caps @ map Some (v # vs)"
        and rd: "reading_parts E parts vs (drop (length v + length t) s)"
        by blast
      from v rd Elective have "reading_parts E (p # parts) (v # vs) s"
        by (simp add: p)
      with ms show ?thesis by blast
    qed
  qed
qed

lemma follows_unslash: "follows E (SLASH # v) t s \<Longrightarrow> \<exists>xs. s = SLASH # xs \<and> follows E v t xs"
  by (cases s) (auto simp: follows_def)

lemma exec_optional_some:
  assumes "(\<exists>xs m. s = SLASH # xs \<and> exec E r xs caps = Some m) \<or> (\<exists>m. exec E r s caps = Some m)"
  shows "\<exists>m. exec E (Optional (Chr SLASH) # r) s caps = Some m"
proof -
  let ?inner = "case s of [] \<Rightarrow> None | x # xs \<Rightarrow> if same_char E SLASH x then exec E r xs caps else None"
  have u: "exec E (Optional (Chr SLASH) # r) s caps = (case ?inner of Some m \<Rightarrow> Some m | None \<Rightarrow> exec E r s caps)"
    by (rule exec.simps)
  show ?thesis
  proof (cases ?inner)
    case (Some x)
    with u show ?thesis by (simp only: option.case) blast
  next
    case None
    from assms show ?thesis
    proof
      assume "\<exists>xs m. s = SLASH # xs \<and> exec E r xs caps = Some m"
      with None show ?thesis by (auto simp del: exec.simps)
    next
      assume "\<exists>m. exec E r s caps = Some m"
      with u None show ?thesis by (simp only: option.case)
    qed
  qed
qed

lemma reading_exec:
  "reading_parts E parts vs s \<Longrightarrow> \<exists>ms. exec E (groups parts) s caps = Some ms"
proof (induction parts arbitrary: vs s caps)
  case Nil
  then have "s = []" by (cases vs) simp_all
  then show ?case by simp
next
  case (Cons p parts)
  obtain k w t where p: "p = (k, w, t)" by (cases p)
  from Cons.prems p obtain v vs' where vs: "vs = v # vs'" by (cases vs) auto
  let ?R = "chars t @ groups parts"
  from Cons.prems p vs have v: "SLASH \<notin> set v" by simp
  have seg: "\<exists>ms. try_down (\<lambda>j. exec E ?R (drop j y) (Some (take j y) # caps)) lo (seg_len E y) = Some ms"
    if "lo \<le> length v" "follows E v t y" "reading_parts E parts vs' (drop (length v + length t) y)" for y lo
  proof -
    from Cons.IH [OF that(3), of "Some v # caps"] obtain ms
      where "exec E (groups parts) (drop (length v + length t) y) (Some v # caps) = Some ms" ..
    from reading_segment [OF v that(1,2) this] show ?thesis .
  qed
  from Cons.prems p vs
  consider (slash) "follows E (SLASH # v) t s" "k = Required \<longrightarrow> v \<noteq> []"
      "reading_parts E parts vs' (drop (length (SLASH # v) + length t) s)"
    | (bare) "k = Elective" "follows E v t s" "reading_parts E parts vs' (drop (length v + length t) s)"
    by auto
  then show ?case
  proof cases
    case slash
    from follows_unslash [OF slash(1)] obtain xs where s: "s = SLASH # xs" and f: "follows E v t xs"
      by blast
    from slash(3) s have rd: "reading_parts E parts vs' (drop (length v + length t) xs)" by simp
    show ?thesis
    proof (cases k)
      case Required
      with slash(2) have "1 \<le> length v" by (cases v) auto
      from seg [OF this f rd] obtain ms
        where "try_down (\<lambda>j. exec E ?R (drop j xs) (Some (take j xs) # caps)) 1 (seg_len E xs) = Some ms" ..
      then have "exec E (Once Seg_plus # ?R) xs caps = Some ms"
        by (simp only: exec.simps)
      then have "exec E (Once (Chr SLASH) # Once Seg_plus # ?R) s caps = Some ms"
        by (simp del: exec.simps add: exec.simps(2) s)
      with Required p show ?thesis by (simp del: exec.simps)
    next
      case Elective
      from seg [OF _ f rd, of 0] obtain ms
        where "try_down (\<lambda>j. exec E ?R (drop j xs) (Some (take j xs) # caps)) 0 (seg_len E xs) = Some ms"
        by auto
      then have "exec E (Once Seg_star # ?R) xs caps = Some ms"
        by (simp only: exec.simps)
      with s have "\<exists>m. exec E (Optional (Chr SLASH) # Once Seg_star # ?R) s caps = Some m"
        by (intro exec_optional_some) blast
      with Elective p show ?thesis by (simp del: exec.simps)
    qed
  next
    case bare
    from seg [OF _ bare(2,3), of 0] obtain ms
      where "try_down (\<lambda>j. exec E ?R (drop j s) (Some (take j s) # caps)) 0 (seg_len E s) = Some ms"
      by auto
    then have "exec E (Once Seg_star # ?R) s caps = Some ms"
      by (simp only: exec.simps)
    then have "\<exists>m. exec E (Optional (Chr SLASH) # Once Seg_star # ?R) s caps = Some m"
      by (intro exec_optional_some) blast
    with bare(1) p show ?thesis by (simp del: exec.simps)
  qed
qed

subsection \<open>A template of required parameters against its own paths\<close>

lemma groups_head:
  "required_only parts \<Longrightarrow> groups parts = [] \<or> (\<exists>r. groups parts = Once (Chr SLASH) # r)"
  by (cases parts) (auto simp: required_only_def)

lemma lead_fill_parts [simp]: "lead (fill_parts parts vs) = 0"
  by (induction parts vs rule: fill_parts.induct) simp_all

lemma exec_lead:
  assumes "exec E (chars t @ groups parts) y caps = Some res" and "required_only parts"
  shows "lead y = lead t"
proof -
  let ?u = "take (length t) y" and ?z = "drop (length t) y"
  from assms(1) have le: "length t \<le> length y" and same: "list_all2 (same_char E) t ?u"
    and ex: "exec E (groups parts) ?z caps = Some res"
    by (auto simp: exec_chars split: if_splits)
  from lead_same [OF same] have u: "lead ?u = lead t" "SLASH \<in> set ?u \<longleftrightarrow> SLASH \<in> set t"
    by auto
  have y: "lead y = (if SLASH \<in> set ?u then lead ?u else length ?u + lead ?z)"
    using lead_append [of ?u ?z] by simp
  show ?thesis
  proof (cases "SLASH \<in> set t")
    case True
    with y u show ?thesis by simp
  next
    case False
    have "lead ?z = 0"
    proof -
      from groups_head [OF assms(2)] show ?thesis
      proof
        assume "groups parts = []"
        with ex show ?thesis by (simp split: if_splits)
      next
        assume "\<exists>r. groups parts = Once (Chr SLASH) # r"
        then obtain r where "groups parts = Once (Chr SLASH) # r" ..
        with ex show ?thesis by (cases ?z) (auto split: if_splits)
      qed
    qed
    with y u False le show ?thesis by (simp add: lead_free)
  qed
qed

lemma exec_too_long:
  assumes "required_only parts" and "1 \<le> d" and "d \<le> lead (t @ fill_parts parts vs)"
  shows "exec E (chars t @ groups parts) (drop d (t @ fill_parts parts vs)) caps = None"
proof (rule ccontr)
  let ?x = "t @ fill_parts parts vs"
  assume "exec E (chars t @ groups parts) (drop d ?x) caps \<noteq> None"
  then obtain res where "exec E (chars t @ groups parts) (drop d ?x) caps = Some res"
    by auto
  from exec_lead [OF this assms(1)] have "lead (drop d ?x) = lead t" .
  moreover have "lead ?x = lead t"
    by (simp add: lead_append lead_free)
  moreover have "lead (drop d ?x) = lead ?x - d"
    using assms(3) by (rule lead_drop)
  ultimately show False using assms(2,3) by simp
qed

lemma exec_fill:
  assumes "required_only parts" and "length vs = length parts"
    and "\<forall>v\<in>set vs. v \<noteq> [] \<and> SLASH \<notin> set v"
  shows "exec E (groups parts) (fill_parts parts vs) caps = Some (rev caps @ map Some vs)"
  using assms
proof (induction parts vs arbitrary: caps rule: fill_parts.induct)
  case (1 k w t parts v vs)
  from "1.prems" have k: "k = Required" and ro: "required_only parts" and len: "length vs = length parts"
    and v: "v \<noteq> []" "SLASH \<notin> set v" and vs: "\<forall>v\<in>set vs. v \<noteq> [] \<and> SLASH \<notin> set v"
    by (auto simp: required_only_def)
  let ?x = "t @ fill_parts parts vs"
  let ?R = "chars t @ groups parts"
  let ?f = "\<lambda>j. exec E ?R (drop j (v @ ?x)) (Some (take j (v @ ?x)) # caps)"
  have hi: "seg_len E (v @ ?x) = length v + lead ?x"
    using v by (simp add: seg_len_lead lead_append [of v])
  have at: "?f (length v) = Some (rev caps @ map Some (v # vs))"
    using "1.IH" [OF ro len vs, of "Some v # caps"] by (simp add: exec_chars_self)
  have above: "?f j = None" if "length v < j" "j \<le> length v + lead ?x" for j
  proof -
    have "drop j (v @ ?x) = drop (j - length v) ?x"
      using that by simp
    moreover have "exec E ?R (drop (j - length v) ?x) (Some (take j (v @ ?x)) # caps) = None"
      using that by (intro exec_too_long [OF ro]) auto
    ultimately show ?thesis by simp
  qed
  have "try_down ?f 1 (length v + lead ?x) = Some (rev caps @ map Some (v # vs))"
    using v(1) at above by (intro try_down_first [where a = "length v"]) (auto simp: Suc_le_eq)
  then show ?case
    using hi by (simp add: k)
qed (auto simp: required_only_def)

subsection \<open>Decoding the captures\<close>

lemma assign_fold:
  "fold (\<lambda>(k, d) m. assign m k d) xs ps
   = ps ++ map_of (rev (filter (\<lambda>(k, d). k \<noteq> js ''__proto__'') xs))"
proof (induction xs arbitrary: ps)
  case Nil
  then show ?case by simp
next
  case (Cons x xs)
  obtain k d where x: "x = (k, d)" by (cases x)
  show ?case
  proof (cases "k = js ''__proto__''")
    case True
    with Cons x show ?thesis by (simp add: assign_def)
  next
    case False
    let ?F = "filter (\<lambda>(k, d). k \<noteq> js ''__proto__'') xs"
    have a: "assign ps k d = ps(k \<mapsto> d)"
      using False by (simp add: assign_def)
    have "fold (\<lambda>(k, d) m. assign m k d) (x # xs) ps = fold (\<lambda>(k, d) m. assign m k d) xs (ps(k \<mapsto> d))"
      by (simp only: fold_simps x prod.case a)
    also have "\<dots> = ps(k \<mapsto> d) ++ map_of (rev ?F)"
      by (rule Cons.IH)
    also have "\<dots> = ps ++ ([k \<mapsto> d] ++ map_of (rev ?F))"
      by (rule ext) (simp add: map_add_def split: option.splits)
    also have "[k \<mapsto> d] ++ map_of (rev ?F) = map_of (rev (filter (\<lambda>(k, d). k \<noteq> js ''__proto__'') (x # xs)))"
      using False by (simp add: x)
    finally show ?thesis .
  qed
qed

lemma reduce_matches_values:
  assumes "list_all2 (\<lambda>v d. decodeURIComponent v = Inr d) vs ds" and "i + length vs \<le> length names"
  shows "reduce_matches names i (map Some vs) ps
         = Inr (fold (\<lambda>(k, d) m. assign m k d) (zip (drop i names) ds) ps)"
  using assms
proof (induction vs ds arbitrary: i ps rule: list_all2_induct)
  case Nil
  then show ?case by simp
next
  case (Cons v vs d ds)
  from Cons.prems have i: "i < length names" and le: "Suc i + length vs \<le> length names"
    by simp_all
  have dr: "drop i names = names ! i # drop (Suc i) names"
    using i by (simp add: Cons_nth_drop_Suc)
  have "reduce_matches names i (map Some (v # vs)) ps
        = reduce_matches names (Suc i) (map Some vs) (assign ps (names ! i) d)"
    using Cons.hyps(1) i by (simp add: match_text_def)
  with Cons.IH [OF le, of "assign ps (names ! i) d"] show ?case
    by (simp add: dr)
qed

lemma map_of_rev_distinct: "distinct (map fst xs) \<Longrightarrow> map_of (rev xs) = map_of xs"
proof (induction xs)
  case Nil
  then show ?case by simp
next
  case (Cons x xs)
  obtain k d where x: "x = (k, d)" by (cases x)
  with Cons.prems have "k \<notin> fst ` set xs" by auto
  then have "map_of xs k = None"
    by (simp add: map_of_eq_None_iff)
  then have "[k \<mapsto> d] ++ map_of xs = (map_of xs)(k \<mapsto> d)"
    by (intro ext) (auto simp: map_add_def split: option.splits)
  with Cons show ?case by (simp add: x)
qed

lemma decode_values:
  assumes "list_all2 (\<lambda>v d. decodeURIComponent v = Inr d) vs ds"
    and "length names = length vs" and "distinct names"
  shows "decode names (map Some vs) = Inr (map_of (filter (\<lambda>(k, d). k \<noteq> js ''__proto__'') (zip names ds)))"
proof -
  have l: "length ds = length vs"
    using assms(1) by (simp add: list_all2_lengthD)
  have "distinct (map fst (zip names ds))"
    using assms(2,3) l by simp
  then have "distinct (map fst (filter (\<lambda>(k, d). k \<noteq> js ''__proto__'') (zip names ds)))"
    by (rule distinct_map_filter)
  then have "map_of (rev (filter (\<lambda>(k, d). k \<noteq> js ''__proto__'') (zip names ds)))
             = map_of (filter (\<lambda>(k, d). k \<noteq> js ''__proto__'') (zip names ds))"
    by (rule map_of_rev_distinct)
  with reduce_matches_values [OF assms(1), of 0 names Map.empty] assms(2)
  show ?thesis
    by (simp add: decode_def assign_fold)
qed

lemma decode_values_rev:
  assumes "list_all2 (\<lambda>v d. decodeURIComponent v = Inr d) vs ds"
    and "length names = length vs"
  shows "decode names (map Some vs) = Inr (map_of (rev (filter (\<lambda>(k, d). k \<noteq> js ''__proto__'') (zip names ds))))"
  using reduce_matches_values [OF assms(1), of 0 names Map.empty] assms(2)
  by (simp add: decode_def assign_fold)

lemma reduce_matches_decoded:
  "reduce_matches names i (map Some vs) ps = Inr ps'
   \<Longrightarrow> \<exists>ds. list_all2 (\<lambda>v d. decodeURIComponent v = Inr d) vs ds"
proof (induction vs arbitrary: i ps)
  case Nil
  then show ?case by simp
next
  case (Cons v vs)
  from Cons.prems obtain d where d: "decodeURIComponent v = Inr d"
    by (cases "decodeURIComponent v") (simp_all add: match_text_def)
  with Cons.prems have "reduce_matches names (Suc i) (map Some vs)
      (assign ps (if i < length names then names ! i else js ''undefined'') d) = Inr ps'"
    by (simp add: match_text_def)
  from Cons.IH [OF this] obtain ds where "list_all2 (\<lambda>v d. decodeURIComponent v = Inr d) vs ds" ..
  with d have "list_all2 (\<lambda>v d. decodeURIComponent v = Inr d) (v # vs) (d # ds)" by simp
  then show ?case ..
qed

section \<open>Normal forms of paths, and decoding\<close>

lemma strip_slash_id:
  "QUERY \<notin> set p \<Longrightarrow> p \<noteq> [] \<Longrightarrow> last p \<noteq> SLASH \<Longrightarrow> strip_slash p = p"
proof (induction p)
  case Nil
  then show ?case by simp
next
  case (Cons c cs)
  then show ?case by (cases cs) auto
qed

lemma takeWhile_no_query: "QUERY \<notin> set p \<Longrightarrow> takeWhile (\<lambda>c. c \<noteq> QUERY) p = p"
  by (induction p) auto

lemma normalize_id:
  assumes "QUERY \<notin> set p" "p \<noteq> []" "last p \<noteq> SLASH"
  shows "normalize b p = p"
proof -
  have "normalize b p = or_slash (strip_slash p)"
    unfolding normalize_def by (simp only: takeWhile_no_query [OF assms(1)] if_cancel)
  also have "\<dots> = or_slash p"
    by (simp only: strip_slash_id [OF assms])
  also have "\<dots> = p"
    using assms(2) by (simp add: or_slash_def)
  finally show ?thesis .
qed

lemma strip_slash_end: "QUERY \<notin> set p \<Longrightarrow> strip_slash p = strip_end_slash p"
proof (induction p)
  case Nil
  then show ?case by (simp add: strip_end_slash_def)
next
  case (Cons c p)
  then show ?case by (cases p) (auto simp: strip_end_slash_def)
qed

lemma normalize_strip:
  assumes "QUERY \<notin> set p"
  shows "normalize b p = or_slash (strip_end_slash p)"
  unfolding normalize_def
  by (simp only: takeWhile_no_query [OF assms] if_cancel strip_slash_end [OF assms])

lemma decodeURIComponent_plain: "PERCENT \<notin> set s \<Longrightarrow> decodeURIComponent s = Inr s"
  by (induction s) auto

lemma decode_one:
  "decodeURIComponent v = Inr v' \<Longrightarrow> k \<noteq> js ''__proto__'' \<Longrightarrow> decode [k] [Some v] = Inr [k \<mapsto> v']"
  by (simp add: decode_def match_text_def assign_def)

lemma normalize_nowhere: "normalize False (js ''/nowhere'') = js ''/nowhere''"
  by (rule normalize_id) (simp_all add: js_def)

lemma normalize_guides: "normalize False (js ''/posts/guides'') = js ''/posts/guides''"
  by (rule normalize_id) (simp_all add: js_def)

lemma normalize_new: "normalize False (js ''/posts/new'') = js ''/posts/new''"
  by (rule normalize_id) (simp_all add: js_def)

lemma normalize_nowhere_slash: "normalize False (js ''/nowhere/'') = js ''/nowhere''"
  by (simp add: normalize_def or_slash_def js_def)

lemma normalize_guides_slash: "normalize False (js ''/posts/guides/'') = js ''/posts/guides''"
  by (simp add: normalize_def or_slash_def js_def)

section \<open>Optional parameters\<close>

lemma lead_less: "SLASH \<in> set x \<Longrightarrow> lead x < length x"
  by (induction x) (auto simp: lead_def)

lemma exec_seg_star_end:
  "exec E [Once Seg_star] x caps = (if SLASH \<notin> set x then Some (rev caps @ [Some x]) else None)"
proof (cases "SLASH \<in> set x")
  case True
  have "try_down (\<lambda>j. exec E [] (drop j x) (Some (take j x) # caps)) 0 (lead x) = None"
    using lead_less [OF True] by (intro try_down_None) auto
  with True show ?thesis by (simp add: seg_len_lead)
next
  case False
  have "try_down (\<lambda>j. exec E [] (drop j x) (Some (take j x) # caps)) 0 (lead x) = Some (rev caps @ [Some x])"
    using False by (intro try_down_first [where a = "length x"]) (simp_all add: lead_free)
  with False show ?thesis by (simp add: seg_len_lead)
qed

lemma exec_optional_end:
  "exec E [Optional (Chr SLASH), Once Seg_star] x caps =
     (if SLASH \<notin> set (after_slash x) then Some (rev caps @ [Some (after_slash x)]) else None)"
  by (cases x) (auto simp del: exec.simps simp add: exec.simps(3) exec_seg_star_end after_slash_def)

lemma optional_template_render: "optional_template t0 w = render t0 [(Elective, w, [])]"
  by (simp add: optional_template_def render_def)

lemma compile_optional:
  assumes "literal t0" and "word w"
  shows "compile E (n, Template (optional_template t0 w)) =
           Inr \<lparr>name = n, pattern = (\<lambda>s. exec E (chars t0 @ [Optional (Chr SLASH), Once Seg_star]) s []),
                cb = decode [w], template = Some (optional_template t0 w)\<rparr>"
proof -
  have "list_all well_formed [(Elective, w, [])]"
    using assms(2) by (simp add: literal_def)
  moreover have "render t0 [(Elective, w, [])] \<noteq> []" "last (render t0 [(Elective, w, [])]) \<noteq> SLASH"
    by (simp_all add: render_def js_marks)
  ultimately show ?thesis
    using compile_render [OF assms(1), of "[(Elective, w, [])]" E n]
    by (simp add: optional_template_render items_of_def chars_def)
qed

lemma optional_exec:
  "exec E (chars t0 @ [Optional (Chr SLASH), Once Seg_star]) s [] =
     (if length t0 \<le> length s \<and> list_all2 (same_char E) t0 (take (length t0) s)
         \<and> SLASH \<notin> set (after_slash (drop (length t0) s))
      then Some [Some (after_slash (drop (length t0) s))] else None)"
  by (auto simp del: exec.simps simp add: exec_chars exec_optional_end)

lemma tag_template: "optional_template (js ''/posts'') (js ''tag'') = js ''/posts/:tag?''"
  by (simp add: optional_template_def js_def)

lemma tag_literal: "literal (js ''/posts'')" "word (js ''tag'')"
  by (simp_all add: literal_def word_def is_word_def js_def)

lemma createRouter_tag: "createRouter E tag_config False = Inr (tag_router E)"
  using compile_optional [OF tag_literal, of E "js ''tagged''"]
  by (simp only: createRouter_def tag_config_def entries_single compile_all.simps tag_template
      tag_router_def tag_items_def sum.case)

lemma createRouter_post: "createRouter E post_config False = Inr (post_router E)"
  by (simp only: createRouter_def post_config_def entries_single compile_all.simps compile_id
      post_router_def sum.case)

lemma normalize_empty: "normalize b [] = js ''/''"
  by (simp add: normalize_def or_slash_def)

lemma tag_exec_postsnews: "exec E tag_items (js ''/postsnews'') [] = Some [Some (js ''news'')]"
proof -
  have "length (js ''/posts'') \<le> length (js ''/postsnews'')"
    and "take (length (js ''/posts'')) (js ''/postsnews'') = js ''/posts''"
    and "after_slash (drop (length (js ''/posts'')) (js ''/postsnews'')) = js ''news''"
    and "SLASH \<notin> set (js ''news'')"
    by (simp_all add: js_def after_slash_def)
  then show ?thesis
    unfolding tag_items_def optional_exec by (simp add: list_all2_same_refl)
qed

lemma tag_parse_posts:
  "fst (parse (tag_router E) (js ''/posts'')) =
     Inr (Page \<lparr>path = js ''/posts'', route = js ''tagged'', params = [js ''tag'' \<mapsto> js '''']\<rparr>)"
proof -
  have q: "normalize False (js ''/posts'') = js ''/posts''"
    by (rule normalize_id) (simp_all add: js_def)
  have x: "exec E tag_items (js ''/posts'') [] = Some [Some (js '''')]"
    unfolding tag_items_def optional_exec
    by (simp add: after_slash_def list_all2_same_refl) (simp add: js_def)
  have d: "decode [js ''tag''] [Some (js '''')] = Inr [js ''tag'' \<mapsto> js '''']"
    by (rule decode_one) (simp_all add: js_def)
  have "first_match (routes (tag_router E)) (js ''/posts'') =
        Inr (Page \<lparr>path = js ''/posts'', route = js ''tagged'', params = [js ''tag'' \<mapsto> js '''']\<rparr>)"
    by (simp only: tag_router_def router.simps first_match.simps compiled_route.simps x d
        option.case sum.case)
  then show ?thesis
    by (simp add: parse_def Let_def tag_router_def q)
qed

subsection \<open>What the pattern of an optional parameter accepts\<close>

text \<open>
  C5 (amended). Take a template whose text outside the parameter markers holds no \<open>:\<close>
  and no \<open>*\<close>; \<open>render t0 parts\<close> is the template without the slash at its end, which
  \<open>createRouter\<close> drops. The compiled pattern accepts exactly the paths that have a
  reading by the parts of the template: the leading text, compared case-insensitively,
  and then for every marker a slash, a segment without slashes and the text behind the
  marker, where the segment of a required parameter is not empty, and where before the
  segment of an optional parameter the slash may be missing and the segment may be
  empty. So at the place of an optional marker the pattern accepts nothing, a lone slash,
  a segment without its slash, and a slash with a segment, and no other shape. The
  captures are the segments of such a reading. For a template that is some text
  followed by one optional marker, the capture is what stands behind the text in the
  path, without its leading slash if it has one.
\<close>

theorem optional_pattern:
  assumes "literal t0" and "list_all well_formed parts"
    and "or_slash (strip_end_slash T) = render t0 parts"
    and "compile E (n, Template T) = Inr e"
  shows "((\<exists>ms. pattern e s = Some ms) \<longleftrightarrow> (\<exists>vs. reading E t0 parts vs s))
       \<and> (pattern e s = Some ms \<longrightarrow> (\<exists>vs. ms = map Some vs \<and> reading E t0 parts vs s))
       \<and> (parts = [(Elective, w, [])] \<longrightarrow>
            pattern e s =
              (if length t0 \<le> length s \<and> list_all2 (same_char E) t0 (take (length t0) s)
                  \<and> SLASH \<notin> set (after_slash (drop (length t0) s))
               then Some [Some (after_slash (drop (length t0) s))] else None))"
proof -
  from assms(4) have e: "pattern e = (\<lambda>s. exec E (items_of t0 parts) s [])"
    unfolding compile_template [OF assms(3,1,2)] by auto
  have x: "pattern e s = (if follows E [] t0 s then exec E (groups parts) (drop (length t0) s) [] else None)"
    unfolding e items_of_def exec_chars by (simp add: follows_def)
  have 1: "\<exists>vs. ms = map Some vs \<and> reading E t0 parts vs s" if "pattern e s = Some ms" for ms
  proof -
    from that x have f: "follows E [] t0 s" and "exec E (groups parts) (drop (length t0) s) [] = Some ms"
      by (simp_all split: if_splits)
    from exec_reading [OF this(2)] f show ?thesis
      by (auto simp: reading_def)
  qed
  have 2: "\<exists>ms. pattern e s = Some ms" if "reading E t0 parts vs s" for vs
  proof -
    from that have f: "follows E [] t0 s" and "reading_parts E parts vs (drop (length t0) s)"
      by (simp_all add: reading_def)
    from reading_exec [OF this(2), of "[]"] f x show ?thesis by simp
  qed
  have 3: "pattern e s =
              (if length t0 \<le> length s \<and> list_all2 (same_char E) t0 (take (length t0) s)
                  \<and> SLASH \<notin> set (after_slash (drop (length t0) s))
               then Some [Some (after_slash (drop (length t0) s))] else None)"
    if "parts = [(Elective, w, [])]"
    unfolding e items_of_def that using optional_exec [of E t0 s] by (simp add: chars_def)
  from 1 2 3 show ?thesis by blast
qed

lemma shop_parts:
  "literal []" "list_all well_formed [(Required, js ''cat'', []), (Elective, js ''tag'', [])]"
  "or_slash (strip_end_slash (js ''/:cat/:tag?'')) = render [] [(Required, js ''cat'', []), (Elective, js ''tag'', [])]"
  by (simp_all add: literal_def word_def is_word_def or_slash_def strip_end_slash_def render_def js_def)

lemma tag_parts:
  "or_slash (strip_end_slash (js ''/posts/:tag?'')) = render (js ''/posts'') [(Elective, js ''tag'', [])]"
  "list_all well_formed [(Elective, js ''tag'', [])]"
  by (simp_all add: literal_def word_def is_word_def or_slash_def strip_end_slash_def render_def js_def)

theorem optional_pattern_witness:
  "(\<exists>e. compile node (js ''shop'', Template (js ''/:cat/:tag?'')) = Inr e
        \<and> reading node [] [(Required, js ''cat'', []), (Elective, js ''tag'', [])] [js ''news'', []] (js ''/news'')
        \<and> (\<exists>ms. pattern e (js ''/news'') = Some ms))
   \<and> (\<exists>e. compile node (js ''tagged'', Template (js ''/posts/:tag?'')) = Inr e
        \<and> pattern e (js ''/posts/news'') = Some [Some (js ''news'')]
        \<and> reading node (js ''/posts'') [(Elective, js ''tag'', [])] [js ''news''] (js ''/posts/news'')
        \<and> pattern e (js ''/posts/news/old'') = None)"
proof -
  let ?ps = "[(Required, js ''cat'', []), (Elective, js ''tag'', [])]"
  from compile_template [OF shop_parts(3,1,2), of node "js ''shop''"]
  obtain e where c: "compile node (js ''shop'', Template (js ''/:cat/:tag?'')) = Inr e" by blast
  have r: "reading node [] ?ps [js ''news'', []] (js ''/news'')"
    by (simp add: reading_def follows_def js_def)
  from optional_pattern [OF shop_parts(1,2,3) c, of "js ''/news''"] r
  have a: "\<exists>ms. pattern e (js ''/news'') = Some ms" by blast
  from compile_template [OF tag_parts(1) tag_literal(1) tag_parts(2), of node "js ''tagged''"]
  obtain e' where c': "compile node (js ''tagged'', Template (js ''/posts/:tag?'')) = Inr e'" by blast
  have 1: "length (js ''/posts'') \<le> length (js ''/posts/news'')"
    and 2: "take (length (js ''/posts'')) (js ''/posts/news'') = js ''/posts''"
    and 3: "after_slash (drop (length (js ''/posts'')) (js ''/posts/news'')) = js ''news''"
    and 4: "SLASH \<notin> set (js ''news'')"
    and 5: "SLASH \<in> set (after_slash (drop (length (js ''/posts'')) (js ''/posts/news/old'')))"
    by (simp_all add: js_def after_slash_def)
  from optional_pattern [OF tag_literal(1) tag_parts(2,1) c', of "js ''/posts/news''" _ "js ''tag''"] 1 2 3 4
  have b: "pattern e' (js ''/posts/news'') = Some [Some (js ''news'')]"
    by (simp add: list_all2_same_refl)
  from optional_pattern [OF tag_literal(1) tag_parts(2,1) c', of "js ''/posts/news''" "[Some (js ''news'')]"] b
  have d: "\<exists>vs. [Some (js ''news'')] = map Some vs \<and> reading node (js ''/posts'') [(Elective, js ''tag'', [])] vs (js ''/posts/news'')"
    by blast
  then have d': "reading node (js ''/posts'') [(Elective, js ''tag'', [])] [js ''news''] (js ''/posts/news'')"
    by (auto simp: map_eq_Cons_conv)
  from optional_pattern [OF tag_literal(1) tag_parts(2,1) c', of "js ''/posts/news/old''" _ "js ''tag''"] 5
  have f: "pattern e' (js ''/posts/news/old'') = None"
    by simp
  from c r a c' b d' f show ?thesis by blast
qed

text \<open>
  The claim C5 as stated fails: the pattern of \<open>/posts/:tag?\<close> accepts \<open>/postsnews\<close>, a
  segment that no slash precedes, and captures \<open>news\<close>.
\<close>

theorem segment_without_slash_accepted:
  "createRouter node tag_config False = Inr (tag_router node)
   \<and> pattern (hd (routes (tag_router node))) (js ''/postsnews'') = Some [Some (js ''news'')]"
  using createRouter_tag [of node] tag_exec_postsnews [of node] by (simp add: tag_router_def)

subsection \<open>The parameter of an omitted segment\<close>

lemma same_count:
  "list_all2 (same_char E) t u \<Longrightarrow> count_list u SLASH = count_list t SLASH"
  by (induction t u rule: list_all2_induct) auto

lemma count_drop_lead: "d \<le> lead s \<Longrightarrow> count_list (drop d s) SLASH = count_list s SLASH"
proof (induction s arbitrary: d)
  case Nil
  then show ?case by simp
next
  case (Cons c s)
  then show ?case by (cases d) (auto simp: lead_def split: if_splits)
qed

lemma count_free: "SLASH \<notin> set v \<Longrightarrow> count_list v SLASH = 0"
  by (induction v) auto

lemma follows_split:
  assumes "follows E x t s"
  shows "\<exists>u. s = x @ u @ drop (length x + length t) s \<and> list_all2 (same_char E) t u"
proof -
  let ?u = "take (length t) (drop (length x) s)"
  from assms have x: "take (length x) s = x" and u: "list_all2 (same_char E) t ?u"
    by (simp_all add: follows_def)
  have "s = take (length x) s @ drop (length x) s"
    by simp
  also have "drop (length x) s = ?u @ drop (length t) (drop (length x) s)"
    by (simp only: append_take_drop_id)
  finally have "s = x @ ?u @ drop (length x + length t) s"
    using x by (simp only: drop_drop add.commute)
  with u show ?thesis by blast
qed

lemma reading_required_count:
  "required_only parts \<Longrightarrow> length vs = length parts \<Longrightarrow> \<forall>v\<in>set vs. SLASH \<notin> set v
   \<Longrightarrow> reading_parts E parts ws s
   \<Longrightarrow> count_list s SLASH = count_list (fill_parts parts vs) SLASH"
proof (induction parts arbitrary: vs ws s)
  case Nil
  then show ?case by (cases ws) simp_all
next
  case (Cons p parts)
  obtain k w t where p: "p = (k, w, t)" by (cases p)
  from Cons.prems(1) p have k: "k = Required" and ro: "required_only parts"
    by (simp_all add: required_only_def)
  from Cons.prems(2) obtain v vs' where vs: "vs = v # vs'" and len: "length vs' = length parts"
    by (cases vs) auto
  from Cons.prems(4) p obtain a ws' where ws: "ws = a # ws'" by (cases ws) auto
  from Cons.prems(4) p ws k have a: "SLASH \<notin> set a" and f: "follows E (SLASH # a) t s"
    and r: "reading_parts E parts ws' (drop (length (SLASH # a) + length t) s)"
    by auto
  from follows_split [OF f] obtain u where s: "s = (SLASH # a) @ u @ drop (length (SLASH # a) + length t) s"
    and u: "list_all2 (same_char E) t u"
    by blast
  from Cons.prems(3) vs have v: "SLASH \<notin> set v" and vs': "\<forall>v\<in>set vs'. SLASH \<notin> set v"
    by simp_all
  have "count_list s SLASH
        = count_list ((SLASH # a) @ u @ drop (length (SLASH # a) + length t) s) SLASH"
    using s by simp
  also have "\<dots> = Suc (count_list t SLASH + count_list (drop (length (SLASH # a) + length t) s) SLASH)"
    using a same_count [OF u] by (simp add: count_free)
  also have "count_list (drop (length (SLASH # a) + length t) s) SLASH = count_list (fill_parts parts vs') SLASH"
    using ro len vs' r by (rule Cons.IH)
  finally show ?case
    using v by (simp add: p vs count_free)
qed

lemma reading_required_head:
  "required_only parts \<Longrightarrow> reading_parts E parts ws s \<Longrightarrow> lead s = 0"
proof (cases parts)
  case Nil
  assume "reading_parts E parts ws s"
  with Nil show ?thesis by (cases ws) simp_all
next
  case (Cons p ps)
  assume ro: "required_only parts" and r: "reading_parts E parts ws s"
  obtain k w t where p: "p = (k, w, t)" by (cases p)
  from ro Cons p have k: "k = Required" by (simp add: required_only_def)
  from r Cons p obtain a ws' where "ws = a # ws'" by (cases ws) auto
  with r Cons p k have "follows E (SLASH # a) t s" by auto
  then show ?thesis by (cases s) (auto simp: follows_def)
qed

text \<open>What stands behind the text of an optional marker cannot be read with a slash less.\<close>

lemma exec_required_count:
  assumes "required_only parts" and "length vs = length parts" and "\<forall>v\<in>set vs. SLASH \<notin> set v"
    and "exec E (chars t @ groups parts) z caps = Some res"
  shows "count_list z SLASH = count_list (t @ fill_parts parts vs) SLASH"
proof -
  let ?u = "take (length t) z"
  from assms(4) have same: "list_all2 (same_char E) t ?u"
    and ex: "exec E (groups parts) (drop (length t) z) caps = Some res"
    by (auto simp: exec_chars split: if_splits)
  from exec_reading [OF ex] obtain ws where "reading_parts E parts ws (drop (length t) z)"
    by blast
  from reading_required_count [OF assms(1-3) this]
  have "count_list (drop (length t) z) SLASH = count_list (fill_parts parts vs) SLASH" .
  moreover have "count_list z SLASH = count_list ?u SLASH + count_list (drop (length t) z) SLASH"
    using count_list_append [of ?u "drop (length t) z" SLASH] by (simp only: append_take_drop_id)
  ultimately show ?thesis
    using same_count [OF same] by simp
qed

lemma exec_optional_middle:
  assumes "required_only req2" and "length vs2 = length req2"
    and "\<forall>v\<in>set vs2. v \<noteq> [] \<and> SLASH \<notin> set v"
    and "x = [] \<or> (\<exists>v. x = SLASH # v \<and> SLASH \<notin> set v)"
  shows "exec E (groups ((Elective, w, t1) # req2)) (x @ t1 @ fill_parts req2 vs2) caps
         = Some (rev caps @ map Some (after_slash x # vs2))"
proof -
  let ?Y = "fill_parts req2 vs2"
  let ?R = "chars t1 @ groups req2"
  have vs2: "\<forall>v\<in>set vs2. SLASH \<notin> set v" using assms(3) by simp
  have star: "exec E (Once Seg_star # ?R) (v @ t1 @ ?Y) caps = Some (rev caps @ map Some (v # vs2))"
    if v: "SLASH \<notin> set v" for v
  proof -
    let ?f = "\<lambda>j. exec E ?R (drop j (v @ t1 @ ?Y)) (Some (take j (v @ t1 @ ?Y)) # caps)"
    have hi: "seg_len E (v @ t1 @ ?Y) = length v + lead (t1 @ ?Y)"
      using v by (simp add: seg_len_lead lead_append [of v])
    have at: "?f (length v) = Some (rev caps @ map Some (v # vs2))"
      using exec_fill [OF assms(1,2,3), of E "Some v # caps"] by (simp add: exec_chars_self)
    have above: "?f j = None" if "length v < j" "j \<le> length v + lead (t1 @ ?Y)" for j
    proof -
      have "drop j (v @ t1 @ ?Y) = drop (j - length v) (t1 @ ?Y)"
        using that by simp
      moreover have "exec E ?R (drop (j - length v) (t1 @ ?Y)) (Some (take j (v @ t1 @ ?Y)) # caps) = None"
        using that by (intro exec_too_long [OF assms(1)]) auto
      ultimately show ?thesis by simp
    qed
    have "try_down ?f 0 (length v + lead (t1 @ ?Y)) = Some (rev caps @ map Some (v # vs2))"
      using at above by (intro try_down_first [where a = "length v"]) auto
    then show ?thesis
      using hi by (simp only: exec.simps)
  qed
  let ?s = "x @ t1 @ ?Y"
  let ?inner = "case ?s of [] \<Rightarrow> None
                | c # cs \<Rightarrow> if same_char E SLASH c then exec E (Once Seg_star # ?R) cs caps else None"
  have u: "exec E (Optional (Chr SLASH) # Once Seg_star # ?R) ?s caps
           = (case ?inner of Some m \<Rightarrow> Some m | None \<Rightarrow> exec E (Once Seg_star # ?R) ?s caps)"
    by (rule exec.simps)
  have g: "groups ((Elective, w, t1) # req2) = Optional (Chr SLASH) # Once Seg_star # ?R"
    by simp
  from assms(4) show ?thesis
  proof
    assume "\<exists>v. x = SLASH # v \<and> SLASH \<notin> set v"
    then obtain v where x: "x = SLASH # v" and v: "SLASH \<notin> set v" by blast
    have "?inner = Some (rev caps @ map Some (v # vs2))"
      using star [OF v] by (simp del: exec.simps add: x)
    then show ?thesis
      unfolding g u by (simp del: exec.simps add: x after_slash_def)
  next
    assume x: "x = []"
    have inner: "?inner = None"
    proof (cases "t1 @ ?Y")
      case Nil
      then show ?thesis by (simp add: x)
    next
      case (Cons c cs)
      show ?thesis
      proof (cases "c = SLASH")
        case False
        with Cons show ?thesis by (simp del: exec.simps add: x)
      next
        case True
        have none: "exec E ?R (drop j cs) (Some (take j cs) # caps) = None" if "j \<le> seg_len E cs" for j
        proof (rule ccontr)
          assume "exec E ?R (drop j cs) (Some (take j cs) # caps) \<noteq> None"
          then obtain res where "exec E ?R (drop j cs) (Some (take j cs) # caps) = Some res" by auto
          from exec_required_count [OF assms(1,2) vs2 this]
          have "count_list (drop j cs) SLASH = count_list (t1 @ ?Y) SLASH" .
          moreover have "count_list (drop j cs) SLASH = count_list cs SLASH"
            using that by (intro count_drop_lead) (simp add: seg_len_lead)
          moreover have "count_list (t1 @ ?Y) SLASH = Suc (count_list cs SLASH)"
            using Cons True by simp
          ultimately show False by simp
        qed
        have "try_down (\<lambda>j. exec E ?R (drop j cs) (Some (take j cs) # caps)) 0 (seg_len E cs) = None"
          using none by (intro try_down_None) auto
        then have "exec E (Once Seg_star # ?R) cs caps = None"
          by (simp only: exec.simps)
        with Cons True show ?thesis by (simp del: exec.simps add: x)
      qed
    qed
    have "exec E (Once Seg_star # ?R) ([] @ t1 @ ?Y) caps = Some (rev caps @ map Some ([] # vs2))"
      by (rule star) simp
    then show ?thesis
      unfolding g u inner by (simp del: exec.simps add: x after_slash_def)
  qed
qed

lemma lead_text:
  assumes "list_all2 (same_char E) t1 u1" and "lead r = 0" and "lead y = 0"
  shows "lead (u1 @ r) = lead (t1 @ y)"
proof -
  from lead_same [OF assms(1)] have "lead u1 = lead t1" "SLASH \<in> set u1 \<longleftrightarrow> SLASH \<in> set t1"
    by auto
  moreover have "length u1 = length t1"
    using assms(1) by (simp add: list_all2_lengthD)
  ultimately show ?thesis
    using assms(2,3) by (simp add: lead_append)
qed

lemma exec_shifted:
  assumes "1 \<le> d" and "d \<le> lead (t @ Y)"
    and "required_only req2" and "length vs2 = length req2" and "\<forall>v\<in>set vs2. SLASH \<notin> set v"
    and "Y = fill_parts req vs @ x @ t1 @ fill_parts req2 vs2"
    and "length vs = length req"
    and "x = [] \<or> (\<exists>v. x = SLASH # v)"
  shows "exec E (chars t @ groups (req @ (Elective, w, t1) # req2)) (drop d (t @ Y)) caps = None"
proof (rule ccontr)
  define z where "z = drop d (t @ Y)"
  define u where "u = take (length t) z"
  define z' where "z' = drop (length t) z"
  define Y2 where "Y2 = fill_parts req2 vs2"
  assume "exec E (chars t @ groups (req @ (Elective, w, t1) # req2)) (drop d (t @ Y)) caps \<noteq> None"
  then obtain res where "exec E (chars t @ groups (req @ (Elective, w, t1) # req2)) z caps = Some res"
    by (auto simp: z_def)
  then have le: "length t \<le> length z" and same: "list_all2 (same_char E) t u"
    and ex: "exec E (groups (req @ (Elective, w, t1) # req2)) z' caps = Some res"
    by (auto simp: exec_chars u_def z'_def split: if_splits)
  from lead_same [OF same] have us: "lead u = lead t" "SLASH \<in> set u \<longleftrightarrow> SLASH \<in> set t"
    by auto
  have zz: "z = u @ z'" by (simp add: u_def z'_def)
  have lu: "length u = length t" using le by (simp add: u_def)
  have ld: "lead z = lead (t @ Y) - d" unfolding z_def using assms(2) by (rule lead_drop)
  have cz0: "count_list z SLASH = count_list (t @ Y) SLASH"
    unfolding z_def using assms(2) by (rule count_drop_lead)
  show False
  proof (cases "SLASH \<in> set t")
    case True
    then have "lead z = lead t" using us by (simp add: zz lead_append)
    moreover have "lead (t @ Y) = lead t" using True by (simp add: lead_append)
    ultimately show False using ld assms(1,2) by simp
  next
    case False
    then have tY: "lead (t @ Y) = length t + lead Y" by (simp add: lead_append)
    have "lead z = length t + lead z'" using False us lu by (simp add: zz lead_append)
    with ld tY have lz: "length t + lead z' = length t + lead Y - d" by simp
    show False
    proof (cases "lead Y = 0")
      case True
      with lz assms(1,2) tY show False by simp
    next
      case pos: False
      have req: "req = []"
      proof (cases req)
        case (Cons p ps)
        obtain k w' t' where "p = (k, w', t')" by (cases p)
        with Cons assms(6,7) pos show ?thesis by (cases vs) auto
      qed simp
      have x: "x = []"
        using assms(6,8) pos req by auto
      have Y: "Y = t1 @ Y2"
        using assms(6) req x by (simp add: Y2_def)
      from ex req have ex': "exec E (groups ((Elective, w, t1) # req2)) z' caps = Some res"
        by simp
      from exec_reading [OF ex'] obtain ws where r: "reading_parts E ((Elective, w, t1) # req2) ws z'"
        by blast
      then obtain a ws2 where ws: "ws = a # ws2" by (cases ws) auto
      from r ws have a: "SLASH \<notin> set a" by simp
      have cz: "count_list z' SLASH = count_list Y SLASH"
        using cz0 same_count [OF same] False by (simp add: zz count_free)
      from r ws consider
          (slash) "follows E (SLASH # a) t1 z'"
            "reading_parts E req2 ws2 (drop (length (SLASH # a) + length t1) z')"
        | (bare) "follows E a t1 z'" "reading_parts E req2 ws2 (drop (length a + length t1) z')"
        by auto
      then show False
      proof cases
        case slash
        define r2 where "r2 = drop (length (SLASH # a) + length t1) z'"
        from follows_split [OF slash(1)] obtain u1
          where s: "z' = (SLASH # a) @ u1 @ r2" and u1: "list_all2 (same_char E) t1 u1"
          unfolding r2_def by blast
        have "count_list r2 SLASH = count_list Y2 SLASH"
          unfolding r2_def Y2_def using assms(3,4,5) slash(2) by (rule reading_required_count)
        then have "count_list z' SLASH = Suc (count_list Y SLASH)"
          using a same_count [OF u1] by (simp add: s Y count_free)
        with cz show False by simp
      next
        case bare
        define r2 where "r2 = drop (length a + length t1) z'"
        from follows_split [OF bare(1)] obtain u1
          where s: "z' = a @ u1 @ r2" and u1: "list_all2 (same_char E) t1 u1"
          unfolding r2_def by blast
        have r0: "lead r2 = 0"
          unfolding r2_def using assms(3) bare(2) by (rule reading_required_head)
        have "lead Y2 = 0" by (simp add: Y2_def)
        with u1 r0 have "lead (u1 @ r2) = lead (t1 @ Y2)" by (rule lead_text)
        then have "lead z' = length a + lead Y"
          using a by (simp add: s Y lead_append [of a])
        with lz assms(1,2) tY show False by simp
      qed
    qed
  qed
qed

lemma exec_fill_optional:
  assumes "required_only req" and "length vs = length req"
    and "\<forall>v\<in>set vs. v \<noteq> [] \<and> SLASH \<notin> set v"
    and "required_only req2" and "length vs2 = length req2"
    and "\<forall>v\<in>set vs2. v \<noteq> [] \<and> SLASH \<notin> set v"
    and "x = [] \<or> (\<exists>v. x = SLASH # v \<and> SLASH \<notin> set v)"
  shows "exec E (groups (req @ (Elective, w, t1) # req2)) (fill_parts req vs @ x @ t1 @ fill_parts req2 vs2) caps
         = Some (rev caps @ map Some (vs @ after_slash x # vs2))"
  using assms(1,2,3)
proof (induction req arbitrary: vs caps)
  case Nil
  then have "vs = []" by simp
  with exec_optional_middle [OF assms(4,5,6,7), of E w t1 caps] show ?case
    by (simp only: append_Nil fill_parts.simps)
next
  case (Cons p req vs0)
  obtain k w' t where p: "p = (k, w', t)" by (cases p)
  from Cons.prems(2) obtain v vs where vs0: "vs0 = v # vs" by (cases vs0) auto
  from Cons.prems p vs0 have k: "k = Required" and ro: "required_only req" and len: "length vs = length req"
    and v: "v \<noteq> []" "SLASH \<notin> set v" and vs: "\<forall>v\<in>set vs. v \<noteq> [] \<and> SLASH \<notin> set v"
    by (auto simp: required_only_def)
  let ?Y = "fill_parts req vs @ x @ t1 @ fill_parts req2 vs2"
  let ?R = "chars t @ groups (req @ (Elective, w, t1) # req2)"
  let ?f = "\<lambda>j. exec E ?R (drop j (v @ t @ ?Y)) (Some (take j (v @ t @ ?Y)) # caps)"
  have hi: "seg_len E (v @ t @ ?Y) = length v + lead (t @ ?Y)"
    using v by (simp add: seg_len_lead lead_append [of v])
  have at: "?f (length v) = Some (rev caps @ map Some ((v # vs) @ after_slash x # vs2))"
    using Cons.IH [OF ro len vs, of "Some v # caps"] by (simp add: exec_chars_self)
  have vs2: "\<forall>v\<in>set vs2. SLASH \<notin> set v" using assms(6) by simp
  have x: "x = [] \<or> (\<exists>v. x = SLASH # v)" using assms(7) by auto
  have above: "?f j = None" if "length v < j" "j \<le> length v + lead (t @ ?Y)" for j
  proof -
    have "drop j (v @ t @ ?Y) = drop (j - length v) (t @ ?Y)"
      using that by simp
    moreover have "exec E ?R (drop (j - length v) (t @ ?Y)) (Some (take j (v @ t @ ?Y)) # caps) = None"
      using that by (intro exec_shifted [OF _ _ assms(4,5) vs2 refl len x]) auto
    ultimately show ?thesis by simp
  qed
  have "try_down ?f 1 (length v + lead (t @ ?Y)) = Some (rev caps @ map Some ((v # vs) @ after_slash x # vs2))"
    using v(1) at above by (intro try_down_first [where a = "length v"]) (auto simp: Suc_le_eq)
  then show ?case
    using hi by (simp add: k p vs0)
qed

lemma reading_parts_length: "reading_parts E parts vs s \<Longrightarrow> length vs = length parts"
proof (induction parts arbitrary: vs s)
  case Nil
  then show ?case by (cases vs) simp_all
next
  case (Cons p parts)
  obtain k w t where p: "p = (k, w, t)" by (cases p)
  from Cons.prems p obtain v vs' where vs: "vs = v # vs'" by (cases vs) auto
  from Cons.prems p vs Cons.IH [of vs'] show ?case by auto
qed

lemma dom_kept:
  assumes "length ns = length ds"
  shows "dom (map_of (rev (filter (\<lambda>(k, d). k \<noteq> p) (zip ns ds)))) = set ns - {p}"
proof -
  have "fst ` set (zip ns ds) = set ns"
    using assms by (metis map_fst_zip set_map)
  then have "fst ` {x \<in> set (zip ns ds). fst x \<noteq> p} = set ns - {p}"
    by auto
  moreover have "set (rev (filter (\<lambda>(k, d). k \<noteq> p) (zip ns ds))) = {x \<in> set (zip ns ds). fst x \<noteq> p}"
    by auto
  ultimately show ?thesis
    by (simp only: dom_map_of_conv_image_fst)
qed

lemma kept_middle:
  assumes "length ns = length ds" and "w \<noteq> p" and "w \<notin> set ns2"
  shows "map_of (rev (filter (\<lambda>(k, d). k \<noteq> p) (zip (ns @ w # ns2) (ds @ d # ds2)))) w = Some d"
proof -
  have "w \<notin> fst ` set (rev (filter (\<lambda>(k, d). k \<noteq> p) (zip ns2 ds2)))"
    using assms(3) by (auto dest: set_zip_leftD)
  then have "map_of (rev (filter (\<lambda>(k, d). k \<noteq> p) (zip ns2 ds2))) w = None"
    by (simp add: map_of_eq_None_iff del: set_rev set_filter)
  then show ?thesis
    using assms(1,2) by (simp add: map_add_def)
qed

lemma template_route:
  assumes "literal t0" and "list_all well_formed parts"
    and "or_slash (strip_end_slash T) = render t0 parts"
    and "compile E (n, Template T) = Inr e"
  shows "pattern e s = (if follows E [] t0 s then exec E (groups parts) (drop (length t0) s) [] else None)"
    and "cb e = decode (map (\<lambda>(k, w, t). w) parts)" and "name e = n"
proof -
  from assms(4) have e: "e = \<lparr>name = n, pattern = (\<lambda>s. exec E (items_of t0 parts) s []),
                cb = decode (map (\<lambda>(k, w, t). w) parts), template = Some (render t0 parts)\<rparr>"
    unfolding compile_template [OF assms(3,1,2)] by auto
  show "pattern e s = (if follows E [] t0 s then exec E (groups parts) (drop (length t0) s) [] else None)"
    unfolding e items_of_def by (simp add: exec_chars follows_def)
  show "cb e = decode (map (\<lambda>(k, w, t). w) parts)" "name e = n"
    unfolding e by simp_all
qed

lemma fill_parts_empty: "length vs = length req \<Longrightarrow> fill_parts req vs = [] \<longleftrightarrow> req = []"
  by (induction req vs rule: fill_parts.induct) auto

lemma page_params:
  assumes "literal t0" and "list_all well_formed parts"
    and "or_slash (strip_end_slash T) = render t0 parts"
    and "compile E (n, Template T) = Inr e"
    and "first_match [e] q = Inr (Page pg)"
  shows "dom (params pg) = set (map (\<lambda>(k, w, t). w) parts) - {js ''__proto__''}
       \<and> (\<exists>vs ds. reading E t0 parts vs (path pg)
             \<and> list_all2 (\<lambda>v d. decodeURIComponent v = Inr d) vs ds
             \<and> params pg = map_of (rev (filter (\<lambda>(k, d). k \<noteq> js ''__proto__'')
                                          (zip (map (\<lambda>(k, w, t). w) parts) ds))))"
proof -
  let ?names = "map (\<lambda>(k, w, t). w) parts"
  note tr = template_route [OF assms(1-4)]
  from assms(5) obtain ms ps where ms: "pattern e q = Some ms" and ps: "cb e ms = Inr ps"
    and pg: "pg = \<lparr>path = q, route = name e, params = ps\<rparr>"
    by (auto split: option.splits sum.splits)
  from ms tr(1) [of q] have f: "follows E [] t0 q"
    and x: "exec E (groups parts) (drop (length t0) q) [] = Some ms"
    by (simp_all split: if_splits)
  from exec_reading [OF x] obtain vs where vs: "ms = map Some vs"
    and rp: "reading_parts E parts vs (drop (length t0) q)"
    by auto
  from f rp have r: "reading E t0 parts vs q" by (simp add: reading_def)
  from reading_parts_length [OF rp] have len: "length ?names = length vs" by simp
  from ps vs tr(2) have d: "decode ?names (map Some vs) = Inr ps" by simp
  then obtain ds where ds: "list_all2 (\<lambda>v d. decodeURIComponent v = Inr d) vs ds"
    unfolding decode_def by (blast dest: reduce_matches_decoded)
  from decode_values_rev [OF ds len] d
  have m: "ps = map_of (rev (filter (\<lambda>(k, d). k \<noteq> js ''__proto__'') (zip ?names ds)))"
    by simp
  have "length ?names = length ds"
    using len ds by (simp add: list_all2_lengthD)
  from dom_kept [OF this, of "js ''__proto__''"] m
  have "dom ps = set ?names - {js ''__proto__''}" by simp
  with r ds m pg show ?thesis by auto
qed

lemma segment_page:
  assumes "literal t0" and "list_all well_formed parts"
    and "or_slash (strip_end_slash T) = render t0 parts"
    and "compile E (n, Template T) = Inr e"
    and "parts = req @ (Elective, w, t1) # req2"
    and "required_only req" and "length vs = length req"
    and "\<forall>v\<in>set vs. v \<noteq> [] \<and> SLASH \<notin> set v"
    and "required_only req2" and "length vs2 = length req2"
    and "\<forall>v\<in>set vs2. v \<noteq> [] \<and> SLASH \<notin> set v"
    and "list_all2 (\<lambda>v d. decodeURIComponent v = Inr d) vs ds"
    and "list_all2 (\<lambda>v d. decodeURIComponent v = Inr d) vs2 ds2"
    and "x = [] \<or> (\<exists>v. x = SLASH # v \<and> SLASH \<notin> set v)"
    and "decodeURIComponent (after_slash x) = Inr d"
    and "p = fill t0 req vs @ x @ t1 @ fill_parts req2 vs2" and "QUERY \<notin> set p"
    and "p = [] \<or> last p \<noteq> SLASH"
  shows "first_match [e] (normalize b p) =
           Inr (Page \<lparr>path = or_slash p, route = n,
                      params = map_of (rev (filter (\<lambda>(k, d). k \<noteq> js ''__proto__'')
                                 (zip (map (\<lambda>(k, w, t). w) parts) (ds @ d # ds2)))) \<rparr>)"
proof -
  note tr = template_route [OF assms(1-4)]
  have g: "groups parts = groups (req @ (Elective, w, t1) # req2)"
    by (simp only: assms(5))
  have names: "map (\<lambda>(k, w, t). w) parts = map (\<lambda>(k, w, t). w) req @ w # map (\<lambda>(k, w, t). w) req2"
    by (simp add: assms(5))
  have "strip_end_slash p = p"
    using assms(18) by (auto simp: strip_end_slash_def)
  then have q: "normalize b p = or_slash p"
    using normalize_strip [OF assms(17), of b] by simp
  have x: "pattern e (or_slash p) = Some (map Some (vs @ after_slash x # vs2))"
  proof (cases "p = []")
    case False
    then have "or_slash p = p"
      by (simp add: or_slash_def)
    then have o: "or_slash p = t0 @ fill_parts req vs @ x @ t1 @ fill_parts req2 vs2"
      by (simp add: assms(16) fill_def)
    have "follows E [] t0 (t0 @ fill_parts req vs @ x @ t1 @ fill_parts req2 vs2)"
      by (simp add: follows_def list_all2_same_refl)
    with exec_fill_optional [OF assms(6,7,8,9,10,11,14), of E w t1 "[]"] show ?thesis
      unfolding o tr(1) g by simp
  next
    case True
    with assms(16) have t0: "t0 = []" and f: "fill_parts req vs = []" and x0: "x = []" and t1: "t1 = []"
      and f2: "fill_parts req2 vs2 = []"
      by (simp_all add: fill_def)
    from f assms(7) have req: "req = []" and vs: "vs = []"
      by (simp_all add: fill_parts_empty)
    from f2 assms(10) have req2: "req2 = []" and vs2: "vs2 = []"
      by (simp_all add: fill_parts_empty)
    have "follows E [] [] [SLASH]" by (simp add: follows_def)
    moreover have "exec E (groups ((Elective, w, []) # [])) ([SLASH] @ [] @ fill_parts [] []) []
                   = Some (rev [] @ map Some (after_slash [SLASH] # []))"
      by (rule exec_optional_middle) (simp_all add: required_only_def)
    ultimately show ?thesis
      unfolding tr(1) g using True
      by (simp add: or_slash_def js_marks t0 req vs x0 t1 req2 vs2 after_slash_def)
  qed
  have "list_all2 (\<lambda>v d. decodeURIComponent v = Inr d) (vs @ after_slash x # vs2) (ds @ d # ds2)"
    using assms(12,13,15) by (simp add: list_all2_appendI)
  from decode_values_rev [OF this, of "map (\<lambda>(k, w, t). w) parts"] assms(7,10)
  have "cb e (map Some (vs @ after_slash x # vs2)) = Inr (map_of (rev (filter (\<lambda>(k, d). k \<noteq> js ''__proto__'')
                                 (zip (map (\<lambda>(k, w, t). w) parts) (ds @ d # ds2)))))"
    unfolding tr(2) by (simp add: names)
  with x tr(3) q show ?thesis by simp
qed

lemma fill_parts_no_query:
  "list_all (\<lambda>(k, w, t). QUERY \<notin> set t) parts \<Longrightarrow> \<forall>v\<in>set vs. QUERY \<notin> set v
   \<Longrightarrow> QUERY \<notin> set (fill_parts parts vs)"
  by (induction parts vs rule: fill_parts.induct) auto

text \<open>
  C3 (amended). Take a template whose text outside the parameter markers holds no \<open>:\<close>
  and no \<open>*\<close>; \<open>render t0 parts\<close> is the template without the slash at its end. In the
  parameters of every page that \<open>parse\<close> returns for it, every parameter name of the
  template other than \<open>__proto__\<close> is a key, that of an optional parameter as well, and no
  other key is: the value is the URL-decoded segment that the pattern has read at the
  marker, the empty string where it has read an empty segment (of two markers with one
  name the later one counts). The name \<open>__proto__\<close> is never a key.

  Let moreover the template have one optional parameter \<open>w\<close>, not \<open>__proto__\<close>, with
  required parameters before it and behind it, none of those behind it named \<open>w\<close>; let
  the text outside the markers hold no \<open>?\<close>; and let every required parameter have a
  value that is not empty, holds no \<open>/\<close> and no \<open>?\<close>, and is a well-formed
  percent-encoding. Then the path in which the values stand in the place of the required
  markers and the optional segment is omitted, if it does not end in \<open>/\<close>, yields a page
  in whose parameters the key \<open>w\<close> is present with the empty string as its value. And
  the path that has there a slash and a segment \<open>v\<close>, not empty, without \<open>/\<close> and \<open>?\<close>
  and a well-formed percent-encoding, yields the URL-decoded \<open>v\<close> under the key \<open>w\<close>, if
  it does not end in \<open>/\<close>.
\<close>

theorem optional_omitted:
  assumes "literal t0" and "list_all well_formed parts"
    and "or_slash (strip_end_slash T) = render t0 parts"
  shows "\<exists>r. createRouter E [(n, Template T)] b = Inr r
     \<and> (\<forall>p pg. fst (parse r p) = Inr (Page pg) \<longrightarrow>
          dom (params pg) = set (map (\<lambda>(k, w, t). w) parts) - {js ''__proto__''}
          \<and> (\<exists>vs ds. reading E t0 parts vs (path pg)
                \<and> list_all2 (\<lambda>v d. decodeURIComponent v = Inr d) vs ds
                \<and> params pg = map_of (rev (filter (\<lambda>(k, d). k \<noteq> js ''__proto__'')
                                             (zip (map (\<lambda>(k, w, t). w) parts) ds)))))
     \<and> (parts = req @ (Elective, w, t1) # req2 \<and> required_only req \<and> required_only req2
        \<and> w \<noteq> js ''__proto__'' \<and> w \<notin> set (map (\<lambda>(k, w, t). w) req2)
        \<and> QUERY \<notin> set t0 \<and> list_all (\<lambda>(k, w, t). QUERY \<notin> set t) parts
        \<and> length vs = length req \<and> length vs2 = length req2
        \<and> (\<forall>v\<in>set (vs @ vs2). v \<noteq> [] \<and> SLASH \<notin> set v \<and> QUERY \<notin> set v)
        \<and> list_all2 (\<lambda>v d. decodeURIComponent v = Inr d) vs ds
        \<and> list_all2 (\<lambda>v d. decodeURIComponent v = Inr d) vs2 ds2
        \<longrightarrow>
          (fill t0 req vs @ t1 @ fill_parts req2 vs2 = []
             \<or> last (fill t0 req vs @ t1 @ fill_parts req2 vs2) \<noteq> SLASH
           \<longrightarrow> (\<exists>ps. fst (parse r (fill t0 req vs @ t1 @ fill_parts req2 vs2)) =
                        Inr (Page \<lparr>path = or_slash (fill t0 req vs @ t1 @ fill_parts req2 vs2),
                                   route = n, params = ps\<rparr>)
                    \<and> ps w = Some []
                    \<and> ps = map_of (rev (filter (\<lambda>(k, d). k \<noteq> js ''__proto__'')
                                      (zip (map (\<lambda>(k, w, t). w) parts) (ds @ [] # ds2))))))
        \<and> (v \<noteq> [] \<and> SLASH \<notin> set v \<and> QUERY \<notin> set v \<and> decodeURIComponent v = Inr d
              \<and> last (fill t0 req vs @ SLASH # v @ t1 @ fill_parts req2 vs2) \<noteq> SLASH
           \<longrightarrow> (\<exists>ps. fst (parse r (fill t0 req vs @ SLASH # v @ t1 @ fill_parts req2 vs2)) =
                        Inr (Page \<lparr>path = fill t0 req vs @ SLASH # v @ t1 @ fill_parts req2 vs2,
                                   route = n, params = ps\<rparr>)
                    \<and> ps w = Some d
                    \<and> ps = map_of (rev (filter (\<lambda>(k, d). k \<noteq> js ''__proto__'')
                                      (zip (map (\<lambda>(k, w, t). w) parts) (ds @ d # ds2)))))))"
proof -
  let ?names = "map (\<lambda>(k, w, t). w) parts"
  let ?e = "\<lparr>name = n, pattern = (\<lambda>s. exec E (items_of t0 parts) s []), cb = decode ?names,
             template = Some (render t0 parts)\<rparr>"
  let ?r = "\<lparr>routes = [?e], search = b, prev = None, writes = [], history = []\<rparr>"
  have e: "compile E (n, Template T) = Inr ?e"
    by (rule compile_template [OF assms(3,1,2)])
  then have c: "createRouter E [(n, Template T)] b = Inr ?r"
    by (simp only: createRouter_def entries_single compile_all.simps sum.case)
  have parse: "fst (parse ?r p) = first_match [?e] (normalize b p)" for p
    by (simp add: parse_def Let_def)
  have 1: "dom (params pg) = set ?names - {js ''__proto__''}
          \<and> (\<exists>vs ds. reading E t0 parts vs (path pg)
                \<and> list_all2 (\<lambda>v d. decodeURIComponent v = Inr d) vs ds
                \<and> params pg = map_of (rev (filter (\<lambda>(k, d). k \<noteq> js ''__proto__'') (zip ?names ds))))"
    if "fst (parse ?r p) = Inr (Page pg)" for p pg
    using that unfolding parse by (rule page_params [OF assms e])
  have 2: "\<exists>ps. fst (parse ?r (fill t0 req vs @ x @ t1 @ fill_parts req2 vs2)) =
                   Inr (Page \<lparr>path = or_slash (fill t0 req vs @ x @ t1 @ fill_parts req2 vs2),
                              route = n, params = ps\<rparr>)
               \<and> ps w = Some d'
               \<and> ps = map_of (rev (filter (\<lambda>(k, d). k \<noteq> js ''__proto__'') (zip ?names (ds @ d' # ds2))))"
    if h: "parts = req @ (Elective, w, t1) # req2" "required_only req" "required_only req2"
      "w \<noteq> js ''__proto__''" "w \<notin> set (map (\<lambda>(k, w, t). w) req2)"
      "QUERY \<notin> set t0" "list_all (\<lambda>(k, w, t). QUERY \<notin> set t) parts"
      "length vs = length req" "length vs2 = length req2"
      "\<forall>v\<in>set (vs @ vs2). v \<noteq> [] \<and> SLASH \<notin> set v \<and> QUERY \<notin> set v"
      "list_all2 (\<lambda>v d. decodeURIComponent v = Inr d) vs ds"
      "list_all2 (\<lambda>v d. decodeURIComponent v = Inr d) vs2 ds2"
      and x: "x = [] \<or> (\<exists>v. x = SLASH # v \<and> SLASH \<notin> set v)" "QUERY \<notin> set x"
        "decodeURIComponent (after_slash x) = Inr d'"
      and l: "fill t0 req vs @ x @ t1 @ fill_parts req2 vs2 = []
              \<or> last (fill t0 req vs @ x @ t1 @ fill_parts req2 vs2) \<noteq> SLASH"
    for x d'
  proof -
    let ?p = "fill t0 req vs @ x @ t1 @ fill_parts req2 vs2"
    have vs: "\<forall>v\<in>set vs. v \<noteq> [] \<and> SLASH \<notin> set v" and vs2: "\<forall>v\<in>set vs2. v \<noteq> [] \<and> SLASH \<notin> set v"
      using h(10) by simp_all
    have "QUERY \<notin> set (fill_parts req vs)"
      using h(1,7,10) by (intro fill_parts_no_query) auto
    moreover have "QUERY \<notin> set (fill_parts req2 vs2)"
      using h(1,7,10) by (intro fill_parts_no_query) auto
    ultimately have nq: "QUERY \<notin> set ?p"
      using h(1,6,7) x(2) by (simp add: fill_def)
    have names: "?names = map (\<lambda>(k, w, t). w) req @ w # map (\<lambda>(k, w, t). w) req2"
      by (simp add: h(1))
    have len: "length (map (\<lambda>(k, w, t). w) req) = length ds"
      using h(8,11) by (simp add: list_all2_lengthD)
    from segment_page [OF assms e h(1,2,8) vs h(3,9) vs2 h(11,12) x(1,3) refl nq l, of b]
    have "fst (parse ?r ?p) =
            Inr (Page \<lparr>path = or_slash ?p, route = n,
                       params = map_of (rev (filter (\<lambda>(k, d). k \<noteq> js ''__proto__'') (zip ?names (ds @ d' # ds2))))\<rparr>)"
      unfolding parse .
    moreover have "map_of (rev (filter (\<lambda>(k, d). k \<noteq> js ''__proto__'') (zip ?names (ds @ d' # ds2)))) w = Some d'"
      unfolding names using len h(4,5) by (rule kept_middle)
    ultimately show ?thesis by blast
  qed
  have 3: "\<exists>ps. fst (parse ?r (fill t0 req vs @ t1 @ fill_parts req2 vs2)) =
                   Inr (Page \<lparr>path = or_slash (fill t0 req vs @ t1 @ fill_parts req2 vs2),
                              route = n, params = ps\<rparr>)
               \<and> ps w = Some []
               \<and> ps = map_of (rev (filter (\<lambda>(k, d). k \<noteq> js ''__proto__'') (zip ?names (ds @ [] # ds2))))"
    if "parts = req @ (Elective, w, t1) # req2" "required_only req" "required_only req2"
      "w \<noteq> js ''__proto__''" "w \<notin> set (map (\<lambda>(k, w, t). w) req2)"
      "QUERY \<notin> set t0" "list_all (\<lambda>(k, w, t). QUERY \<notin> set t) parts"
      "length vs = length req" "length vs2 = length req2"
      "\<forall>v\<in>set (vs @ vs2). v \<noteq> [] \<and> SLASH \<notin> set v \<and> QUERY \<notin> set v"
      "list_all2 (\<lambda>v d. decodeURIComponent v = Inr d) vs ds"
      "list_all2 (\<lambda>v d. decodeURIComponent v = Inr d) vs2 ds2"
      "fill t0 req vs @ t1 @ fill_parts req2 vs2 = []
         \<or> last (fill t0 req vs @ t1 @ fill_parts req2 vs2) \<noteq> SLASH"
    using 2 [OF that(1-12), of "[]" "[]"] that(13) by (simp add: after_slash_def)
  have 4: "\<exists>ps. fst (parse ?r (fill t0 req vs @ SLASH # v @ t1 @ fill_parts req2 vs2)) =
                   Inr (Page \<lparr>path = fill t0 req vs @ SLASH # v @ t1 @ fill_parts req2 vs2,
                              route = n, params = ps\<rparr>)
               \<and> ps w = Some d
               \<and> ps = map_of (rev (filter (\<lambda>(k, d). k \<noteq> js ''__proto__'') (zip ?names (ds @ d # ds2))))"
    if h: "parts = req @ (Elective, w, t1) # req2" "required_only req" "required_only req2"
      "w \<noteq> js ''__proto__''" "w \<notin> set (map (\<lambda>(k, w, t). w) req2)"
      "QUERY \<notin> set t0" "list_all (\<lambda>(k, w, t). QUERY \<notin> set t) parts"
      "length vs = length req" "length vs2 = length req2"
      "\<forall>v\<in>set (vs @ vs2). v \<noteq> [] \<and> SLASH \<notin> set v \<and> QUERY \<notin> set v"
      "list_all2 (\<lambda>v d. decodeURIComponent v = Inr d) vs ds"
      "list_all2 (\<lambda>v d. decodeURIComponent v = Inr d) vs2 ds2"
      and v: "v \<noteq> []" "SLASH \<notin> set v" "QUERY \<notin> set v" "decodeURIComponent v = Inr d"
        "last (fill t0 req vs @ SLASH # v @ t1 @ fill_parts req2 vs2) \<noteq> SLASH"
  proof -
    have l: "last (fill t0 req vs @ (SLASH # v) @ t1 @ fill_parts req2 vs2) \<noteq> SLASH"
      using v(5) by simp
    have o: "or_slash (fill t0 req vs @ (SLASH # v) @ t1 @ fill_parts req2 vs2)
             = fill t0 req vs @ (SLASH # v) @ t1 @ fill_parts req2 vs2"
      by (simp add: or_slash_def)
    from 2 [OF h, of "SLASH # v" d] v l show ?thesis
      unfolding o by (simp add: after_slash_def)
  qed
  from c 1 3 4 show ?thesis by blast
qed

lemma lang_parts:
  "list_all well_formed [(Elective, js ''lang'', js ''/posts''), (Required, js ''id'', [])]"
  "or_slash (strip_end_slash (js ''/:lang?/posts/:id''))
   = render [] [(Elective, js ''lang'', js ''/posts''), (Required, js ''id'', [])]"
  by (simp_all add: literal_def word_def is_word_def or_slash_def strip_end_slash_def render_def js_def)

theorem optional_omitted_witness:
  "(\<exists>r. createRouter node [(js ''shop'', Template (js ''/:cat/:tag?''))] False = Inr r
     \<and> (\<exists>ps. fst (parse r (js ''/news'')) =
                 Inr (Page \<lparr>path = js ''/news'', route = js ''shop'', params = ps\<rparr>)
             \<and> ps (js ''tag'') = Some [] \<and> ps (js ''cat'') = Some (js ''news'')
             \<and> dom ps = {js ''cat'', js ''tag''})
     \<and> (\<exists>ps. fst (parse r (js ''/news/old'')) =
                 Inr (Page \<lparr>path = js ''/news/old'', route = js ''shop'', params = ps\<rparr>)
             \<and> ps (js ''tag'') = Some (js ''old'')))
   \<and> (\<exists>r. createRouter node [(js ''post'', Template (js ''/:lang?/posts/:id''))] False = Inr r
     \<and> (\<exists>ps. fst (parse r (js ''/posts/7'')) =
                 Inr (Page \<lparr>path = js ''/posts/7'', route = js ''post'', params = ps\<rparr>)
             \<and> ps (js ''lang'') = Some [] \<and> ps (js ''id'') = Some (js ''7'')
             \<and> dom ps = {js ''lang'', js ''id''})
     \<and> (\<exists>ps. fst (parse r (js ''/en/posts/7'')) =
                 Inr (Page \<lparr>path = js ''/en/posts/7'', route = js ''post'', params = ps\<rparr>)
             \<and> ps (js ''lang'') = Some (js ''en'')))"
proof (rule conjI)
  let ?req = "[(Required, js ''cat'', [] :: jstr)]"
  let ?req2 = "[] :: part list"
  let ?parts = "[(Required, js ''cat'', [] :: jstr), (Elective, js ''tag'', [] :: jstr)]"
  have H: "?parts = ?req @ (Elective, js ''tag'', []) # ?req2 \<and> required_only ?req \<and> required_only ?req2
        \<and> js ''tag'' \<noteq> js ''__proto__'' \<and> js ''tag'' \<notin> set (map (\<lambda>(k, w, t). w) ?req2)
        \<and> QUERY \<notin> set [] \<and> list_all (\<lambda>(k, w, t). QUERY \<notin> set t) ?parts
        \<and> length [js ''news''] = length ?req \<and> length ([] :: jstr list) = length ?req2
        \<and> (\<forall>v\<in>set ([js ''news''] @ []). v \<noteq> [] \<and> SLASH \<notin> set v \<and> QUERY \<notin> set v)
        \<and> list_all2 (\<lambda>v d. decodeURIComponent v = Inr d) [js ''news''] [js ''news'']
        \<and> list_all2 (\<lambda>v d. decodeURIComponent v = Inr d) ([] :: jstr list) ([] :: jstr list)"
    by (simp add: required_only_def decodeURIComponent_plain js_def)
  have f: "fill [] ?req [js ''news''] @ [] @ fill_parts ?req2 [] = js ''/news''"
    "fill [] ?req [js ''news''] @ SLASH # js ''old'' @ [] @ fill_parts ?req2 [] = js ''/news/old''"
    "or_slash (js ''/news'') = js ''/news''"
    by (simp_all add: fill_def or_slash_def js_def)
  have A: "fill [] ?req [js ''news''] @ [] @ fill_parts ?req2 [] = []
           \<or> last (fill [] ?req [js ''news''] @ [] @ fill_parts ?req2 []) \<noteq> SLASH"
    unfolding f by (simp add: js_def)
  have B: "js ''old'' \<noteq> [] \<and> SLASH \<notin> set (js ''old'') \<and> QUERY \<notin> set (js ''old'')
              \<and> decodeURIComponent (js ''old'') = Inr (js ''old'')
              \<and> last (fill [] ?req [js ''news''] @ SLASH # js ''old'' @ [] @ fill_parts ?req2 []) \<noteq> SLASH"
    unfolding f by (simp add: decodeURIComponent_plain js_def)
  note th = optional_omitted [OF shop_parts(1,2,3), of node "js ''shop''" False ?req "js ''tag''" "[]" ?req2
      "[js ''news'']" "[]" "[js ''news'']" "[]" "js ''old''" "js ''old''"]
  show "\<exists>r. createRouter node [(js ''shop'', Template (js ''/:cat/:tag?''))] False = Inr r
     \<and> (\<exists>ps. fst (parse r (js ''/news'')) =
                 Inr (Page \<lparr>path = js ''/news'', route = js ''shop'', params = ps\<rparr>)
             \<and> ps (js ''tag'') = Some [] \<and> ps (js ''cat'') = Some (js ''news'')
             \<and> dom ps = {js ''cat'', js ''tag''})
     \<and> (\<exists>ps. fst (parse r (js ''/news/old'')) =
                 Inr (Page \<lparr>path = js ''/news/old'', route = js ''shop'', params = ps\<rparr>)
             \<and> ps (js ''tag'') = Some (js ''old''))"
    using th
    apply (elim exE conjE)
    subgoal premises p for r
    proof -
      note c = p(1) and 1 = p(2) [rule_format] and 2 = p(3) [rule_format, OF H]
      note omitted = 2 [THEN conjunct1, rule_format, OF A]
      note present = 2 [THEN conjunct2, rule_format, OF B]
      from omitted [unfolded f] obtain ps where o: "fst (parse r (js ''/news'')) =
                 Inr (Page \<lparr>path = js ''/news'', route = js ''shop'', params = ps\<rparr>)
        \<and> ps (js ''tag'') = Some []
        \<and> ps = map_of (rev (filter (\<lambda>(k, d). k \<noteq> js ''__proto__'')
                  (zip (map (\<lambda>(k, w, t). w) ?parts) ([js ''news''] @ [] # []))))" ..
      note a = o [THEN conjunct1] and t = o [THEN conjunct2, THEN conjunct1]
        and m = o [THEN conjunct2, THEN conjunct2]
      from m have k: "ps (js ''cat'') = Some (js ''news'')"
        by (simp add: js_def)
      from 1 [OF a] have "dom ps = set (map (\<lambda>(k, w, t). w) ?parts) - {js ''__proto__''}"
        by simp
      then have dm: "dom ps = {js ''cat'', js ''tag''}"
        by (auto simp: js_def)
      from present [unfolded f] obtain ps' where o': "fst (parse r (js ''/news/old'')) =
                 Inr (Page \<lparr>path = js ''/news/old'', route = js ''shop'', params = ps'\<rparr>)
        \<and> ps' (js ''tag'') = Some (js ''old'')
        \<and> ps' = map_of (rev (filter (\<lambda>(k, d). k \<noteq> js ''__proto__'')
                  (zip (map (\<lambda>(k, w, t). w) ?parts) ([js ''news''] @ js ''old'' # []))))" ..
      note b = o' [THEN conjunct1] and t' = o' [THEN conjunct2, THEN conjunct1]
      from c a t k dm b t' show ?thesis by blast
    qed
    done
next
  let ?req = "[] :: part list"
  let ?req2 = "[(Required, js ''id'', [] :: jstr)]"
  let ?parts = "[(Elective, js ''lang'', js ''/posts''), (Required, js ''id'', [] :: jstr)]"
  have H: "?parts = ?req @ (Elective, js ''lang'', js ''/posts'') # ?req2 \<and> required_only ?req
        \<and> required_only ?req2
        \<and> js ''lang'' \<noteq> js ''__proto__'' \<and> js ''lang'' \<notin> set (map (\<lambda>(k, w, t). w) ?req2)
        \<and> QUERY \<notin> set [] \<and> list_all (\<lambda>(k, w, t). QUERY \<notin> set t) ?parts
        \<and> length ([] :: jstr list) = length ?req \<and> length [js ''7''] = length ?req2
        \<and> (\<forall>v\<in>set ([] @ [js ''7'']). v \<noteq> [] \<and> SLASH \<notin> set v \<and> QUERY \<notin> set v)
        \<and> list_all2 (\<lambda>v d. decodeURIComponent v = Inr d) ([] :: jstr list) ([] :: jstr list)
        \<and> list_all2 (\<lambda>v d. decodeURIComponent v = Inr d) [js ''7''] [js ''7'']"
    by (simp add: required_only_def decodeURIComponent_plain js_def)
  have f: "fill [] ?req [] @ js ''/posts'' @ fill_parts ?req2 [js ''7''] = js ''/posts/7''"
    "fill [] ?req [] @ SLASH # js ''en'' @ js ''/posts'' @ fill_parts ?req2 [js ''7''] = js ''/en/posts/7''"
    "or_slash (js ''/posts/7'') = js ''/posts/7''"
    by (simp_all add: fill_def or_slash_def js_def)
  have A: "fill [] ?req [] @ js ''/posts'' @ fill_parts ?req2 [js ''7''] = []
           \<or> last (fill [] ?req [] @ js ''/posts'' @ fill_parts ?req2 [js ''7'']) \<noteq> SLASH"
    unfolding f by (simp add: js_def)
  have B: "js ''en'' \<noteq> [] \<and> SLASH \<notin> set (js ''en'') \<and> QUERY \<notin> set (js ''en'')
              \<and> decodeURIComponent (js ''en'') = Inr (js ''en'')
              \<and> last (fill [] ?req [] @ SLASH # js ''en'' @ js ''/posts'' @ fill_parts ?req2 [js ''7'']) \<noteq> SLASH"
    unfolding f by (simp add: decodeURIComponent_plain js_def)
  note th = optional_omitted [OF shop_parts(1) lang_parts(1,2), of node "js ''post''" False ?req
      "js ''lang''" "js ''/posts''" ?req2 "[]" "[js ''7'']" "[]" "[js ''7'']" "js ''en''" "js ''en''"]
  show "\<exists>r. createRouter node [(js ''post'', Template (js ''/:lang?/posts/:id''))] False = Inr r
     \<and> (\<exists>ps. fst (parse r (js ''/posts/7'')) =
                 Inr (Page \<lparr>path = js ''/posts/7'', route = js ''post'', params = ps\<rparr>)
             \<and> ps (js ''lang'') = Some [] \<and> ps (js ''id'') = Some (js ''7'')
             \<and> dom ps = {js ''lang'', js ''id''})
     \<and> (\<exists>ps. fst (parse r (js ''/en/posts/7'')) =
                 Inr (Page \<lparr>path = js ''/en/posts/7'', route = js ''post'', params = ps\<rparr>)
             \<and> ps (js ''lang'') = Some (js ''en''))"
    using th
    apply (elim exE conjE)
    subgoal premises p for r
    proof -
      note c = p(1) and 1 = p(2) [rule_format] and 2 = p(3) [rule_format, OF H]
      note omitted = 2 [THEN conjunct1, rule_format, OF A]
      note present = 2 [THEN conjunct2, rule_format, OF B]
      from omitted [unfolded f] obtain ps where o: "fst (parse r (js ''/posts/7'')) =
                 Inr (Page \<lparr>path = js ''/posts/7'', route = js ''post'', params = ps\<rparr>)
        \<and> ps (js ''lang'') = Some []
        \<and> ps = map_of (rev (filter (\<lambda>(k, d). k \<noteq> js ''__proto__'')
                  (zip (map (\<lambda>(k, w, t). w) ?parts) ([] @ [] # [js ''7'']))))" ..
      note a = o [THEN conjunct1] and t = o [THEN conjunct2, THEN conjunct1]
        and m = o [THEN conjunct2, THEN conjunct2]
      from m have k: "ps (js ''id'') = Some (js ''7'')"
        by (simp add: js_def)
      from 1 [OF a] have "dom ps = set (map (\<lambda>(k, w, t). w) ?parts) - {js ''__proto__''}"
        by simp
      then have dm: "dom ps = {js ''lang'', js ''id''}"
        by (auto simp: js_def)
      from present [unfolded f] obtain ps' where o': "fst (parse r (js ''/en/posts/7'')) =
                 Inr (Page \<lparr>path = js ''/en/posts/7'', route = js ''post'', params = ps'\<rparr>)
        \<and> ps' (js ''lang'') = Some (js ''en'')
        \<and> ps' = map_of (rev (filter (\<lambda>(k, d). k \<noteq> js ''__proto__'')
                  (zip (map (\<lambda>(k, w, t). w) ?parts) ([] @ js ''en'' # [js ''7'']))))" ..
      note b = o' [THEN conjunct1] and t' = o' [THEN conjunct2, THEN conjunct1]
      from c a t k dm b t' show ?thesis by blast
    qed
    done
qed

text \<open>
  The claim C3 as stated fails: for the template \<open>/posts/:tag?\<close>, \<open>parse('/posts')\<close> yields
  the parameters \<open>{ tag: '' }\<close>, not \<open>{}\<close>.
\<close>

theorem omitted_segment_is_empty_string:
  "createRouter node tag_config False = Inr (tag_router node)
   \<and> fst (parse (tag_router node) (js ''/posts'')) =
       Inr (Page \<lparr>path = js ''/posts'', route = js ''tagged'', params = [js ''tag'' \<mapsto> js '''']\<rparr>)
   \<and> [js ''tag'' \<mapsto> js ''''] (js ''tag'') = Some (js '''')"
  using createRouter_tag [of node] tag_parse_posts [of node] by simp

text \<open>
  Where a template has two optional markers, the path does not tell which segment is
  omitted: the pattern of \<open>/:a?/:b?\<close> reads \<open>/x\<close> as \<open>a = 'x'\<close> and \<open>b = ''\<close>, also when
  \<open>x\<close> was meant for \<open>b\<close>. Both keys are present.
\<close>

lemma two_optional_parts:
  "literal []" "list_all well_formed [(Elective, js ''a'', []), (Elective, js ''b'', [])]"
  "or_slash (strip_end_slash (js ''/:a?/:b?'')) = render [] [(Elective, js ''a'', []), (Elective, js ''b'', [])]"
  by (simp_all add: literal_def word_def is_word_def or_slash_def strip_end_slash_def render_def js_def)

lemma two_optional_markers:
  "\<exists>r. createRouter E [(n, Template (js ''/:a?/:b?''))] False = Inr r
     \<and> fst (parse r (js ''/x'')) =
         Inr (Page \<lparr>path = js ''/x'', route = n, params = [js ''a'' \<mapsto> js ''x'', js ''b'' \<mapsto> []]\<rparr>)"
proof -
  let ?parts = "[(Elective, js ''a'', [] :: jstr), (Elective, js ''b'', [] :: jstr)]"
  let ?e = "\<lparr>name = n, pattern = (\<lambda>s. exec E (items_of [] ?parts) s []),
             cb = decode (map (\<lambda>(k, w, t). w) ?parts), template = Some (render [] ?parts)\<rparr>"
  let ?r = "\<lparr>routes = [?e], search = False, prev = None, writes = [], history = []\<rparr>"
  have "compile E (n, Template (js ''/:a?/:b?'')) = Inr ?e"
    by (rule compile_template [OF two_optional_parts(3,1,2)])
  then have c: "createRouter E [(n, Template (js ''/:a?/:b?''))] False = Inr ?r"
    by (simp only: createRouter_def entries_single compile_all.simps sum.case)
  have q: "normalize False (js ''/x'') = js ''/x''"
    by (rule normalize_id) (simp_all add: js_def)
  have x: "exec E (items_of [] ?parts) (js ''/x'') [] = Some [Some (js ''x''), Some []]"
    by (simp add: items_of_def chars_def exec_eval eval_nat_numeral)
  have d: "decode [js ''a'', js ''b''] [Some (js ''x''), Some []] = Inr [js ''a'' \<mapsto> js ''x'', js ''b'' \<mapsto> []]"
    by (simp add: decode_def match_text_def assign_def js_def)
  have "fst (parse ?r (js ''/x'')) =
         Inr (Page \<lparr>path = js ''/x'', route = n, params = [js ''a'' \<mapsto> js ''x'', js ''b'' \<mapsto> []]\<rparr>)"
    using x d by (simp add: parse_def Let_def q)
  with c show ?thesis by blast
qed

section \<open>Round trip\<close>

lemma fill_no_query:
  assumes "QUERY \<notin> set t0" and "list_all (\<lambda>(k, w, t). QUERY \<notin> set t) parts"
    and "\<forall>v\<in>set vs. QUERY \<notin> set v"
  shows "QUERY \<notin> set (fill t0 parts vs)"
proof -
  have "QUERY \<notin> set (fill_parts parts vs)"
    using assms(2,3) by (induction parts vs rule: fill_parts.induct) auto
  with assms(1) show ?thesis by (simp add: fill_def)
qed

subsection \<open>A template that ends in a slash\<close>

lemma strip_end_slash_append: "m \<noteq> [] \<Longrightarrow> strip_end_slash (a @ m) = a @ strip_end_slash m"
  by (simp add: strip_end_slash_def butlast_append)

lemma marker_last: "word w \<Longrightarrow> marker k w \<noteq> [] \<and> last (marker k w) \<noteq> SLASH"
proof -
  assume w: "word w"
  then have "w \<noteq> []" by (simp add: word_def)
  moreover from this word_no_slash [OF w] have "last w \<noteq> SLASH" by (metis last_in_set)
  ultimately show ?thesis by (cases k) (simp_all add: js_marks)
qed

lemma strip_end_slash_marker:
  "word w \<Longrightarrow> strip_end_slash (marker k w @ t) = marker k w @ strip_end_slash t"
proof (cases "t = []")
  case True
  assume "word w"
  from marker_last [OF this, of k] True show ?thesis
    by (simp add: strip_end_slash_def)
next
  case False
  then show ?thesis by (rule strip_end_slash_append)
qed

lemma markers_empty [simp]: "markers parts = [] \<longleftrightarrow> parts = []"
proof (cases parts)
  case Nil
  then show ?thesis by simp
next
  case (Cons p ps)
  obtain k w t where "p = (k, w, t)" by (cases p)
  with Cons show ?thesis by (cases k) (simp_all add: js_marks)
qed

lemma markers_strip_last:
  "list_all well_formed parts \<Longrightarrow> markers (strip_last parts) = strip_end_slash (markers parts)"
proof (induction parts rule: strip_last.induct)
  case 1
  show ?case by (simp add: strip_end_slash_def)
next
  case (2 k w t)
  then show ?case by (simp add: strip_end_slash_marker)
next
  case (3 p q parts)
  obtain k w t where p: "p = (k, w, t)" by (cases p)
  have "markers (q # parts) \<noteq> []" by simp
  then have "strip_end_slash ((marker k w @ t) @ markers (q # parts))
             = (marker k w @ t) @ strip_end_slash (markers (q # parts))"
    by (rule strip_end_slash_append)
  with 3 p show ?case by simp
qed

lemma fill_parts_strip_last:
  "length vs = length parts \<Longrightarrow> \<forall>v\<in>set vs. v \<noteq> [] \<and> SLASH \<notin> set v
   \<Longrightarrow> fill_parts (strip_last parts) vs = strip_end_slash (fill_parts parts vs)"
proof (induction parts arbitrary: vs rule: strip_last.induct)
  case 1
  then show ?case by (simp add: strip_end_slash_def)
next
  case (2 k w t)
  then obtain v where vs: "vs = [v]" and v: "v \<noteq> []" "SLASH \<notin> set v"
    by (cases vs) auto
  from v have l: "last v \<noteq> SLASH" by (metis last_in_set)
  have "strip_end_slash (SLASH # v @ t) = SLASH # v @ strip_end_slash t"
  proof (cases "t = []")
    case True
    with v l show ?thesis by (simp add: strip_end_slash_def)
  next
    case False
    then show ?thesis
      using strip_end_slash_append [of t "SLASH # v"] by simp
  qed
  with vs show ?case by simp
next
  case (3 p q parts)
  obtain k w t where p: "p = (k, w, t)" by (cases p)
  from "3.prems" obtain v vs' where vs: "vs = v # vs'" and len: "length vs' = length (q # parts)"
    and ok: "\<forall>v\<in>set vs'. v \<noteq> [] \<and> SLASH \<notin> set v"
    by (cases vs) auto
  obtain k' w' t' where q: "q = (k', w', t')" by (cases q)
  from len obtain v' vs'' where vs': "vs' = v' # vs''" by (cases vs') auto
  have ne: "fill_parts (q # parts) vs' \<noteq> []"
    by (simp add: q vs')
  have "strip_end_slash ((SLASH # v @ t) @ fill_parts (q # parts) vs')
        = (SLASH # v @ t) @ strip_end_slash (fill_parts (q # parts) vs')"
    using ne by (rule strip_end_slash_append)
  with "3.IH" [OF len ok] show ?case
    by (simp add: p vs)
qed

lemma strip_last_names: "map (\<lambda>(k, w, t). w) (strip_last parts) = map (\<lambda>(k, w, t). w) parts"
  by (induction parts rule: strip_last.induct) auto

lemma strip_last_length [simp]: "length (strip_last parts) = length parts"
  by (induction parts rule: strip_last.induct) auto

lemma strip_end_slash_set: "set (strip_end_slash t) \<subseteq> set t"
  by (auto simp: strip_end_slash_def dest: in_set_butlastD)

lemma strip_end_slash_hd: "strip_end_slash t \<noteq> [] \<Longrightarrow> hd (strip_end_slash t) = hd t"
  by (cases t) (auto simp: strip_end_slash_def split: if_splits)

lemma strip_last_well_formed: "list_all well_formed parts \<Longrightarrow> list_all well_formed (strip_last parts)"
proof (induction parts rule: strip_last.induct)
  case (2 k w t)
  then show ?case
    using strip_end_slash_set [of t] strip_end_slash_hd [of t]
    by (auto simp: literal_def)
qed auto

lemma strip_last_required: "required_only parts \<Longrightarrow> required_only (strip_last parts)"
  by (induction parts rule: strip_last.induct) (auto simp: required_only_def)

lemma or_slash_set: "set (or_slash t) \<subseteq> insert SLASH (set t)"
  by (auto simp: or_slash_def js_marks)

lemma stripped_render:
  assumes "list_all well_formed parts"
  shows "or_slash (strip_end_slash (render t0 parts)) = render (fst (stripped t0 parts)) (snd (stripped t0 parts))"
proof (cases "parts = []")
  case True
  then show ?thesis by (simp add: stripped_def render_def)
next
  case False
  then have "strip_end_slash (t0 @ markers parts) = t0 @ markers (strip_last parts)"
    by (simp add: strip_end_slash_append markers_strip_last [OF assms])
  moreover have "strip_last parts \<noteq> []"
    using False by (cases parts rule: strip_last.cases) auto
  ultimately show ?thesis
    using False by (simp add: stripped_def render_def or_slash_def)
qed

lemma stripped_fill:
  assumes "QUERY \<notin> set (fill t0 parts vs)" and "length vs = length parts"
    and "\<forall>v\<in>set vs. v \<noteq> [] \<and> SLASH \<notin> set v"
  shows "normalize b (fill t0 parts vs) = fill (fst (stripped t0 parts)) (snd (stripped t0 parts)) vs"
proof (cases "parts = []")
  case True
  with assms show ?thesis
    by (simp add: normalize_strip stripped_def fill_def)
next
  case False
  then obtain p ps where parts: "parts = p # ps" by (cases parts) auto
  with assms(2) obtain v vs' where vs: "vs = v # vs'" by (cases vs) auto
  obtain k w t where p: "p = (k, w, t)" by (cases p)
  have ne: "fill_parts parts vs \<noteq> []"
    by (simp add: parts vs p)
  have "strip_end_slash (t0 @ fill_parts parts vs) = t0 @ fill_parts (strip_last parts) vs"
    using ne by (simp add: strip_end_slash_append fill_parts_strip_last [OF assms(2,3)])
  moreover have "fill_parts (strip_last parts) vs \<noteq> []"
    unfolding parts vs p by (cases ps) auto
  ultimately show ?thesis
    using False assms(1) by (simp add: normalize_strip stripped_def fill_def or_slash_def)
qed

lemma stripped_literal:
  assumes "literal t0"
  shows "literal (fst (stripped t0 parts))"
  using assms strip_end_slash_set [of t0] or_slash_set [of "strip_end_slash t0"]
  by (auto simp: stripped_def literal_def)

lemma stripped_well_formed: "list_all well_formed parts \<Longrightarrow> list_all well_formed (snd (stripped t0 parts))"
  by (simp add: stripped_def strip_last_well_formed)

lemma stripped_required: "required_only parts \<Longrightarrow> required_only (snd (stripped t0 parts))"
proof (cases "parts = []")
  case True
  then show ?thesis by (simp add: stripped_def required_only_def)
next
  case False
  assume "required_only parts"
  with False show ?thesis by (simp add: stripped_def strip_last_required)
qed

lemma stripped_names: "map (\<lambda>(k, w, t). w) (snd (stripped t0 parts)) = map (\<lambda>(k, w, t). w) parts"
  by (simp add: stripped_def strip_last_names)

lemma stripped_length: "length (snd (stripped t0 parts)) = length parts"
  by (simp add: stripped_def)

subsection \<open>Values and parameters\<close>

text \<open>
  C4 (amended). Take a template whose parameters are all required and have different
  names and whose text outside the markers is free of \<open>:\<close>, \<open>*\<close> and \<open>?\<close>; and take for
  every parameter a value that is not empty, holds no \<open>/\<close> and no \<open>?\<close>, and is a
  well-formed percent-encoding. Then a router created from the template matches the path
  in which the values stand in the place of the markers, and the parameters it returns
  map every name other than \<open>__proto__\<close> to the URL-decoded value: to the value itself
  when that holds no \<open>%\<close>. A parameter of the name \<open>__proto__\<close> is not stored.
\<close>

theorem round_trip:
  assumes "literal t0" and "list_all well_formed parts" and "required_only parts"
    and "QUERY \<notin> set t0" and "list_all (\<lambda>(k, w, t). QUERY \<notin> set t) parts"
    and "distinct (map (\<lambda>(k, w, t). w) parts)"
    and "length vs = length parts"
    and "\<forall>v\<in>set vs. v \<noteq> [] \<and> SLASH \<notin> set v \<and> QUERY \<notin> set v"
    and "list_all2 (\<lambda>v d. decodeURIComponent v = Inr d) vs ds"
  shows "\<exists>r. createRouter E [(n, Template (render t0 parts))] b = Inr r
           \<and> fst (parse r (fill t0 parts vs)) =
               Inr (Page \<lparr>path = normalize b (fill t0 parts vs), route = n,
                          params = map_of (filter (\<lambda>(k, d). k \<noteq> js ''__proto__'')
                                             (zip (map (\<lambda>(k, w, t). w) parts) ds))\<rparr>)"
proof -
  let ?T = "render t0 parts" and ?p = "fill t0 parts vs" and ?names = "map (\<lambda>(k, w, t). w) parts"
  let ?t = "fst (stripped t0 parts)" and ?ps = "snd (stripped t0 parts)"
  let ?m = "map_of (filter (\<lambda>(k, d). k \<noteq> js ''__proto__'') (zip ?names ds))"
  let ?e = "\<lparr>name = n, pattern = (\<lambda>s. exec E (items_of ?t ?ps) s []), cb = decode ?names,
             template = Some (render ?t ?ps)\<rparr>"
  let ?r = "\<lparr>routes = [?e], search = b, prev = None, writes = [], history = []\<rparr>"
  have "compile E (n, Template ?T) = Inr ?e"
    using compile_template [OF stripped_render [OF assms(2)] stripped_literal [OF assms(1)]
        stripped_well_formed [OF assms(2)], where E = E and n = n]
    by (simp only: stripped_names)
  then have c: "createRouter E [(n, Template ?T)] b = Inr ?r"
    by (simp only: createRouter_def entries_single compile_all.simps sum.case)
  have vs: "\<forall>v\<in>set vs. v \<noteq> [] \<and> SLASH \<notin> set v"
    using assms(8) by simp
  have "QUERY \<notin> set ?p"
    using assms(4,5,8) by (intro fill_no_query) auto
  then have q: "normalize b ?p = fill ?t ?ps vs"
    using assms(7) vs by (rule stripped_fill)
  have "exec E (items_of ?t ?ps) (fill ?t ?ps vs) [] = Some (map Some vs)"
    using exec_fill [OF stripped_required [OF assms(3), of t0] _ vs, where E = E and caps = "[]"] assms(7)
    by (simp add: items_of_def fill_def exec_chars_self stripped_length)
  moreover have "decode ?names (map Some vs) = Inr ?m"
    using assms(9) assms(7) assms(6) by (intro decode_values) simp_all
  ultimately have "first_match [?e] (normalize b ?p)
                   = Inr (Page \<lparr>path = normalize b ?p, route = n, params = ?m\<rparr>)"
    by (simp add: q)
  then have "fst (parse ?r ?p) = Inr (Page \<lparr>path = normalize b ?p, route = n, params = ?m\<rparr>)"
    by (simp add: parse_def Let_def)
  with c show ?thesis by blast
qed

theorem round_trip_witness:
  "\<exists>r. createRouter node [(js ''post'', Template (js ''/posts/:categoryId/:id''))] False = Inr r
      \<and> fst (parse r (js ''/posts/guides/10'')) =
          Inr (Page \<lparr>path = js ''/posts/guides/10'', route = js ''post'',
                     params = [js ''categoryId'' \<mapsto> js ''guides'', js ''id'' \<mapsto> js ''10'']\<rparr>)"
proof -
  let ?parts = "[(Required, js ''categoryId'', []), (Required, js ''id'', [])]"
  let ?vs = "[js ''guides'', js ''10'']"
  have T: "render (js ''/posts'') ?parts = js ''/posts/:categoryId/:id''"
    by (simp add: render_def js_def)
  have p: "fill (js ''/posts'') ?parts ?vs = js ''/posts/guides/10''"
    by (simp add: fill_def js_def)
  have q: "normalize False (js ''/posts/guides/10'') = js ''/posts/guides/10''"
    by (rule normalize_id) (simp_all add: js_def)
  have m: "map_of (filter (\<lambda>(k, d). k \<noteq> js ''__proto__'') (zip (map (\<lambda>(k, w, t). w) ?parts) ?vs))
           = [js ''categoryId'' \<mapsto> js ''guides'', js ''id'' \<mapsto> js ''10'']"
    by (rule ext) (simp add: js_def)
  have 1: "literal (js ''/posts'')"
    by (simp add: literal_def js_def)
  have 2: "list_all well_formed ?parts"
    by (simp add: word_def literal_def is_word_def js_def)
  have 3: "required_only ?parts"
    by (simp add: required_only_def)
  have 4: "QUERY \<notin> set (js ''/posts'')"
    by (simp add: js_def)
  have 5: "list_all (\<lambda>(k, w, t). QUERY \<notin> set t) ?parts"
    by simp
  have 6: "distinct (map (\<lambda>(k, w, t). w) ?parts)"
    by (simp add: js_def)
  have 7: "length ?vs = length ?parts"
    by simp
  have 8: "\<forall>v\<in>set ?vs. v \<noteq> [] \<and> SLASH \<notin> set v \<and> QUERY \<notin> set v"
    by (simp add: js_def)
  have 9: "list_all2 (\<lambda>v d. decodeURIComponent v = Inr d) ?vs ?vs"
    by (simp add: decodeURIComponent_plain js_def)
  from round_trip [OF 1 2 3 4 5 6 7 8 9, of node "js ''post''" False]
  show ?thesis
    unfolding T p m q .
qed

lemma decode_a_b: "decodeURIComponent (js ''a%20b'') = Inr (js ''a b'')"
  by (simp add: js_def hex_val_def)

lemma id_exec_a_b: "exec E id_items (js ''/posts/a%20b'') [] = Some [Some (js ''a%20b'')]"
  by (simp add: id_items_def exec_eval eval_nat_numeral)

lemma post_parse_a_b:
  "fst (parse (post_router E) (js ''/posts/a%20b'')) =
     Inr (Page \<lparr>path = js ''/posts/a%20b'', route = js ''post'', params = [js ''id'' \<mapsto> js ''a b'']\<rparr>)"
proof -
  have q: "normalize False (js ''/posts/a%20b'') = js ''/posts/a%20b''"
    by (rule normalize_id) (simp_all add: js_def)
  have d: "decode [js ''id''] [Some (js ''a%20b'')] = Inr [js ''id'' \<mapsto> js ''a b'']"
    by (rule decode_one, rule decode_a_b) (simp add: js_def)
  have "first_match (routes (post_router E)) (js ''/posts/a%20b'') =
        Inr (Page \<lparr>path = js ''/posts/a%20b'', route = js ''post'', params = [js ''id'' \<mapsto> js ''a b'']\<rparr>)"
    by (simp only: post_router_def router.simps first_match.simps compiled_route.simps
        id_exec_a_b d option.case sum.case)
  then show ?thesis
    by (simp add: parse_def Let_def post_router_def q)
qed

text \<open>
  The claim C4 as stated fails: the value \<open>a%20b\<close> put in the place of \<open>:id\<close> comes back
  as \<open>a b\<close>.
\<close>

theorem escaped_value_is_decoded:
  "createRouter node post_config False = Inr (post_router node)
   \<and> fill (js ''/posts'') [(Required, js ''id'', [])] [js ''a%20b''] = js ''/posts/a%20b''
   \<and> fst (parse (post_router node) (js ''/posts/a%20b'')) =
       Inr (Page \<lparr>path = js ''/posts/a%20b'', route = js ''post'', params = [js ''id'' \<mapsto> js ''a b'']\<rparr>)
   \<and> js ''a b'' \<noteq> js ''a%20b''"
proof -
  have "fill (js ''/posts'') [(Required, js ''id'', [])] [js ''a%20b''] = js ''/posts/a%20b''"
    and "js ''a b'' \<noteq> js ''a%20b''"
    by (simp_all add: fill_def js_def)
  with createRouter_post [of node] post_parse_a_b [of node] show ?thesis by simp
qed

section \<open>Exceptions of parse\<close>

lemma within_simps [simp]: "within s None" "within s (Some u) \<longleftrightarrow> set u \<subseteq> set s"
  by (simp_all add: within_def)

lemma seg_many_Some:
  "seg_many E k s cap = Some res
   \<Longrightarrow> \<exists>s' cap'. k s' cap' = Some res \<and> set s' \<subseteq> set s \<and> (cap' = cap \<or> within s cap')"
proof (induction E k s cap rule: seg_many.induct)
  case (1 E k s cap)
  let ?t = "try_down (\<lambda>j. seg_many E k (drop j s) (Some (take j s))) 1 (seg_len E s)"
  have u: "seg_many E k s cap = (case ?t of Some r \<Rightarrow> Some r | None \<Rightarrow> k s cap)"
    by (rule seg_many.simps)
  show ?case
  proof (cases ?t)
    case None
    with u "1.prems" have "k s cap = Some res"
      by (simp only: option.case)
    then show ?thesis by blast
  next
    case (Some x)
    with u "1.prems" have "?t = Some res"
      by (simp only: option.case)
    from try_down_Some [OF this] obtain j where j: "1 \<le> j" "j \<le> seg_len E s"
      and r: "seg_many E k (drop j s) (Some (take j s)) = Some res"
      by blast
    from "1.IH" [OF j r] obtain s' cap' where a: "k s' cap' = Some res" and b: "set s' \<subseteq> set (drop j s)"
      and c: "cap' = Some (take j s) \<or> within (drop j s) cap'"
      by blast
    have d: "set (drop j s) \<subseteq> set s" and t: "set (take j s) \<subseteq> set s"
      by (simp_all add: set_drop_subset set_take_subset)
    from c d t have "within s cap'"
      by (cases cap') auto
    with a b d show ?thesis by blast
  qed
qed

lemma exec_within:
  "exec E items s caps = Some res \<Longrightarrow> list_all (within s0) caps \<Longrightarrow> set s \<subseteq> set s0
   \<Longrightarrow> list_all (within s0) res"
proof (induction items arbitrary: s caps)
  case Nil
  then show ?case by (auto split: if_splits)
next
  case (Cons it r)
  have step: "list_all (within s0) res"
    if "exec E r (drop j s) (c # caps) = Some res" "within s0 c" for j c
    using that Cons.prems(2,3) set_drop_subset [of j s]
    by (intro Cons.IH [OF that(1)]) auto
  have step': "list_all (within s0) res"
    if "exec E r (drop j s) caps = Some res" for j
    using that Cons.prems(2,3) set_drop_subset [of j s]
    by (intro Cons.IH [OF that(1)]) auto
  have tk: "within s0 (Some (take j s))" for j
    using Cons.prems(3) set_take_subset [of j s] by auto
  show ?case
  proof (cases it)
    case (Once a)
    show ?thesis
    proof (cases a)
      case (Chr c)
      with Once Cons.prems(1) have "exec E r (drop 1 s) caps = Some res"
        by (cases s) (auto split: if_splits)
      then show ?thesis by (rule step')
    next
      case Seg_star
      with Once Cons.prems(1)
      have "try_down (\<lambda>j. exec E r (drop j s) (Some (take j s) # caps)) 0 (seg_len E s) = Some res"
        by simp
      from try_down_Some [OF this]
      obtain j where "exec E r (drop j s) (Some (take j s) # caps) = Some res"
        by blast
      then show ?thesis using step tk by blast
    next
      case Seg_plus
      with Once Cons.prems(1)
      have "try_down (\<lambda>j. exec E r (drop j s) (Some (take j s) # caps)) 1 (seg_len E s) = Some res"
        by simp
      from try_down_Some [OF this]
      obtain j where "exec E r (drop j s) (Some (take j s) # caps) = Some res"
        by blast
      then show ?thesis using step tk by blast
    qed
  next
    case (Optional a)
    show ?thesis
    proof (cases a)
      case (Chr c)
      let ?inner = "case s of [] \<Rightarrow> None | x # xs \<Rightarrow> if same_char E c x then exec E r xs caps else None"
      have u: "exec E (it # r) s caps = (case ?inner of Some m \<Rightarrow> Some m | None \<Rightarrow> exec E r s caps)"
        unfolding Optional Chr by (rule exec.simps)
      show ?thesis
      proof (cases ?inner)
        case None
        with u Cons.prems(1) have "exec E r (drop 0 s) caps = Some res"
          by (simp only: option.case drop_0)
        then show ?thesis by (rule step')
      next
        case (Some x)
        with u Cons.prems(1) have "?inner = Some res"
          by (simp only: option.case)
        then have "exec E r (drop 1 s) caps = Some res"
          by (cases s) (simp_all split: if_splits)
        then show ?thesis by (rule step')
      qed
    next
      case Seg_star
      let ?t = "try_down (\<lambda>j. exec E r (drop j s) (Some (take j s) # caps)) 1 (seg_len E s)"
      have u: "exec E (it # r) s caps = (case ?t of Some m \<Rightarrow> Some m | None \<Rightarrow> exec E r s (None # caps))"
        unfolding Optional Seg_star by (rule exec.simps)
      show ?thesis
      proof (cases ?t)
        case None
        with u Cons.prems(1) have "exec E r (drop 0 s) (None # caps) = Some res"
          by (simp only: option.case drop_0)
        then show ?thesis by (rule step) simp
      next
        case (Some x)
        with u Cons.prems(1) have "?t = Some res"
          by (simp only: option.case)
        from try_down_Some [OF this]
        obtain j where "exec E r (drop j s) (Some (take j s) # caps) = Some res"
          by blast
        then show ?thesis using step tk by blast
      qed
    next
      case Seg_plus
      let ?t = "try_down (\<lambda>j. exec E r (drop j s) (Some (take j s) # caps)) 1 (seg_len E s)"
      have u: "exec E (it # r) s caps = (case ?t of Some m \<Rightarrow> Some m | None \<Rightarrow> exec E r s (None # caps))"
        unfolding Optional Seg_plus by (rule exec.simps)
      show ?thesis
      proof (cases ?t)
        case None
        with u Cons.prems(1) have "exec E r (drop 0 s) (None # caps) = Some res"
          by (simp only: option.case drop_0)
        then show ?thesis by (rule step) simp
      next
        case (Some x)
        with u Cons.prems(1) have "?t = Some res"
          by (simp only: option.case)
        from try_down_Some [OF this]
        obtain j where "exec E r (drop j s) (Some (take j s) # caps) = Some res"
          by blast
        then show ?thesis using step tk by blast
      qed
    qed
  next
    case (Many a)
    show ?thesis
    proof (cases a)
      case (Chr c)
      with Many Cons.prems(1)
      have "try_down (\<lambda>j. exec E r (drop j s) caps) 0 (length (takeWhile (same_char E c) s)) = Some res"
        by simp
      from try_down_Some [OF this] obtain j where "exec E r (drop j s) caps = Some res"
        by blast
      then show ?thesis using step' by blast
    next
      case Seg_star
      with Many Cons.prems(1) have "seg_many E (\<lambda>s' cap. exec E r s' (cap # caps)) s None = Some res"
        by simp
      from seg_many_Some [OF this] obtain s' cap' where x: "exec E r s' (cap' # caps) = Some res"
        and s': "set s' \<subseteq> set s" and c: "within s cap'"
        by auto
      from c Cons.prems(3) have "within s0 cap'"
        by (cases cap') auto
      with Cons.prems(2,3) s' show ?thesis
        by (intro Cons.IH [OF x]) auto
    next
      case Seg_plus
      with Many Cons.prems(1) have "seg_many E (\<lambda>s' cap. exec E r s' (cap # caps)) s None = Some res"
        by simp
      from seg_many_Some [OF this] obtain s' cap' where x: "exec E r s' (cap' # caps) = Some res"
        and s': "set s' \<subseteq> set s" and c: "within s cap'"
        by auto
      from c Cons.prems(3) have "within s0 cap'"
        by (cases cap') auto
      with Cons.prems(2,3) s' show ?thesis
        by (intro Cons.IH [OF x]) auto
    qed
  qed
qed

lemma decodeURIComponent_error: "decodeURIComponent s = Inl e \<Longrightarrow> e = URIError"
proof (induction s rule: decodeURIComponent.induct)
  case 1
  then show ?case by simp
next
  case (2 c cs)
  show ?case
  proof (cases "c \<noteq> PERCENT")
    case True
    with 2 show ?thesis by (auto split: sum.splits)
  next
    case False
    show ?thesis
    proof (cases "read_octet (c # cs)")
      case None
      with False "2.prems" show ?thesis by simp
    next
      case (Some x)
      obtain b rest where x: "x = (b, rest)" by (cases x)
      show ?thesis
      proof (cases "b < 128")
        case True
        with False Some x "2.prems" "2.IH"(2) [OF _ Some x [symmetric]] show ?thesis
          by (auto split: sum.splits)
      next
        case hi: False
        show ?thesis
        proof (cases "b < 192 \<or> 248 \<le> b")
          case True
          with False Some x hi "2.prems" show ?thesis by simp
        next
          case mid: False
          let ?n = "if b < 224 then 1 else if b < 240 then 2 else (3::nat)"
          show ?thesis
          proof (cases "read_octets ?n rest")
            case None
            with False Some x hi mid "2.prems" show ?thesis by simp
          next
            case octs: (Some y)
            obtain bs rest' where y: "y = (bs, rest')" by (cases y)
            show ?thesis
            proof (cases "utf8_decode (b # bs)")
              case None
              with False Some x hi mid octs y "2.prems" show ?thesis by simp
            next
              case cp: (Some cp)
              from "2.IH"(3) [OF _ Some x [symmetric] hi mid octs y [symmetric] cp]
                False Some x hi mid octs y cp "2.prems"
              show ?thesis by (auto split: sum.splits)
            qed
          qed
        qed
      qed
    qed
  qed
qed

lemma reduce_matches_error: "reduce_matches names i ms ps = Inl e \<Longrightarrow> e = URIError"
  by (induction names i ms ps rule: reduce_matches.induct)
    (auto split: sum.splits dest: decodeURIComponent_error)

lemma match_text_plain: "within s m \<Longrightarrow> PERCENT \<notin> set s \<Longrightarrow> PERCENT \<notin> set (match_text m)"
  by (cases m) (auto simp: match_text_def js_def)

lemma reduce_matches_plain:
  "list_all (within s) ms \<Longrightarrow> PERCENT \<notin> set s \<Longrightarrow> \<exists>ps'. reduce_matches names i ms ps = Inr ps'"
proof (induction ms arbitrary: i ps)
  case Nil
  then show ?case by simp
next
  case (Cons m ms)
  let ?key = "if i < length names then names ! i else js ''undefined''"
  from Cons.prems have d: "decodeURIComponent (match_text m) = Inr (match_text m)"
    by (intro decodeURIComponent_plain match_text_plain [of s]) auto
  from Cons.prems have "list_all (within s) ms" by simp
  from Cons.IH [OF this Cons.prems(2), of "Suc i" "assign ps ?key (match_text m)"]
  obtain ps' where "reduce_matches names (Suc i) ms (assign ps ?key (match_text m)) = Inr ps'"
    by blast
  then have "reduce_matches names i (m # ms) ps = Inr ps'"
    by (simp only: reduce_matches.simps d sum.case)
  then show ?case by blast
qed

lemma strip_slash_set: "set (strip_slash p) \<subseteq> set p"
  by (induction p) auto

lemma normalize_set: "set (normalize b p) \<subseteq> insert SLASH (set p)"
proof -
  have "set (takeWhile (\<lambda>c. c \<noteq> QUERY) p) \<subseteq> set p"
    by (auto dest: set_takeWhileD)
  with strip_slash_set [of p] strip_slash_set [of "takeWhile (\<lambda>c. c \<noteq> QUERY) p"]
  show ?thesis
    by (auto simp: normalize_def or_slash_def js_marks)
qed

lemma compile_from_template: "compile E (n, Template t) = Inr e \<Longrightarrow> from_template E e"
  by (auto simp: from_template_def Let_def RegExp_def split: sum.splits option.splits)

lemma compile_all_from_template:
  "compile_all E cfg = Inr rs \<Longrightarrow> \<forall>x\<in>set cfg. \<exists>t. snd x = Template t \<Longrightarrow> list_all (from_template E) rs"
proof (induction cfg arbitrary: rs)
  case Nil
  then show ?case by simp
next
  case (Cons x cfg)
  from Cons.prems(1) obtain e es where e: "compile E x = Inr e" and es: "compile_all E cfg = Inr es"
    and rs: "rs = e # es"
    by (auto split: sum.splits)
  from Cons.prems(2) obtain n t where "x = (n, Template t)" by (cases x) auto
  with e have "from_template E e" by (simp only: compile_from_template)
  with Cons.IH [OF es] Cons.prems(2) rs show ?case by simp
qed

lemma first_match_from_template:
  assumes "list_all (from_template E) rs"
  shows "(PERCENT \<notin> set q \<longrightarrow> (\<exists>res. first_match rs q = Inr res))
       \<and> (\<forall>e. first_match rs q = Inl e \<longrightarrow> e = URIError)"
  using assms
proof (induction rs)
  case Nil
  then show ?case by simp
next
  case (Cons r rs)
  from Cons.prems obtain items names where p: "pattern r = (\<lambda>s. exec E items s [])" and c: "cb r = decode names"
    by (auto simp: from_template_def)
  show ?case
  proof (cases "exec E items q []")
    case None
    with p Cons show ?thesis by simp
  next
    case (Some ms)
    have "list_all (within q) ms"
      using exec_within [OF Some, of q] by simp
    from reduce_matches_plain [OF this, of names 0 Map.empty]
    have "PERCENT \<notin> set q \<Longrightarrow> \<exists>ps. decode names ms = Inr ps"
      by (simp add: decode_def)
    moreover have "decode names ms = Inl e \<Longrightarrow> e = URIError" for e
      by (simp add: decode_def reduce_matches_error)
    ultimately show ?thesis
      using p c Some by (cases "decode names ms") auto
  qed
qed

lemma decode_undefined: "decodeURIComponent (js ''undefined'') = Inr (js ''undefined'')"
  by (rule decodeURIComponent_plain) (simp add: js_def)

lemma reduce_matches_fails:
  "(\<exists>e. reduce_matches names i ms ps = Inl e)
   \<longleftrightarrow> (\<exists>v. Some v \<in> set ms \<and> decodeURIComponent v = Inl URIError)"
proof (induction ms arbitrary: i ps)
  case Nil
  then show ?case by simp
next
  case (Cons m ms)
  show ?case
  proof (cases "decodeURIComponent (match_text m)")
    case (Inl e)
    then have e: "e = URIError" by (rule decodeURIComponent_error)
    from Inl decode_undefined obtain v where "m = Some v"
      by (cases m) (auto simp: match_text_def)
    with Inl e have "Some v \<in> set (m # ms) \<and> decodeURIComponent v = Inl URIError"
      by (simp add: match_text_def)
    moreover from Inl have "reduce_matches names i (m # ms) ps = Inl e" by simp
    ultimately show ?thesis by blast
  next
    case (Inr d)
    then have "\<not> (\<exists>v. m = Some v \<and> decodeURIComponent v = Inl URIError)"
      by (auto simp: match_text_def)
    with Inr Cons.IH [of "Suc i" "assign ps (if i < length names then names ! i else js ''undefined'') d"]
    show ?thesis by auto
  qed
qed

lemma first_match_throws:
  assumes "list_all (from_template E) rs"
  shows "first_match rs q = Inl e \<longleftrightarrow>
           e = URIError \<and> (\<exists>ms v. first_captures rs q = Some ms \<and> Some v \<in> set ms
                                  \<and> decodeURIComponent v = Inl URIError)"
  using assms
proof (induction rs)
  case Nil
  then show ?case by simp
next
  case (Cons r rs)
  from Cons.prems obtain items names where c: "cb r = decode names"
    by (auto simp: from_template_def)
  show ?case
  proof (cases "pattern r q")
    case None
    with Cons show ?thesis by simp
  next
    case (Some ms)
    have f: "(\<exists>e. decode names ms = Inl e) \<longleftrightarrow> (\<exists>v. Some v \<in> set ms \<and> decodeURIComponent v = Inl URIError)"
      unfolding decode_def by (rule reduce_matches_fails)
    have u: "decode names ms = Inl e \<Longrightarrow> e = URIError" for e
      by (simp add: decode_def reduce_matches_error)
    show ?thesis
    proof (cases "decode names ms")
      case (Inl e')
      with f u [OF Inl] Some c show ?thesis by auto
    next
      case (Inr ps)
      with f Some c show ?thesis by auto
    qed
  qed
qed

text \<open>
  C6 (amended). For a router whose routes all come from string templates, \<open>parse\<close>
  throws exactly when the normalized path is not the one parsed last and the first route
  whose pattern accepts it has captured a segment that is not a well-formed
  percent-encoding, one that \<open>decodeURIComponent\<close> rejects; the exception is then the
  \<open>URIError\<close> of \<open>decodeURIComponent\<close>. In every other case \<open>parse\<close> returns a page,
  \<open>undefined\<close> or \<open>false\<close>; so it does on every path that holds no \<open>%\<close>, and on the
  immediate repeat of a path on which it threw.
\<close>

theorem parse_throws:
  assumes "createRouter E cfg b = Inr r0" and "routes r = routes r0"
    and "\<forall>x\<in>set cfg. \<exists>t. snd x = Template t"
  shows "(fst (parse r p) = Inl e \<longleftrightarrow>
            e = URIError \<and> prev r \<noteq> Some (normalize (search r) p)
            \<and> (\<exists>ms v. first_captures (routes r) (normalize (search r) p) = Some ms
                   \<and> Some v \<in> set ms \<and> decodeURIComponent v = Inl URIError))
       \<and> (PERCENT \<notin> set p \<longrightarrow> (\<exists>res. fst (parse r p) = Inr res))"
proof -
  from assms(1) obtain rs where rs: "compile_all E (entries cfg) = Inr rs" and r0: "routes r0 = rs"
    by (auto simp: createRouter_def split: sum.splits)
  have "\<forall>x\<in>set (entries cfg). \<exists>t. snd x = Template t"
    using assms(3) set_entries [of cfg] by blast
  from compile_all_from_template [OF rs this]
  have t: "list_all (from_template E) (routes r)"
    using assms(2) r0 by simp
  have "PERCENT \<notin> set (normalize (search r) p)" if "PERCENT \<notin> set p"
    using that normalize_set [of "search r" p] by auto
  with first_match_from_template [OF t, of "normalize (search r) p"]
  have 2: "PERCENT \<notin> set p \<longrightarrow> (\<exists>res. fst (parse r p) = Inr res)"
    by (auto simp: parse_def Let_def split: if_splits)
  have 1: "fst (parse r p) = Inl e \<longleftrightarrow>
            e = URIError \<and> prev r \<noteq> Some (normalize (search r) p)
            \<and> (\<exists>ms v. first_captures (routes r) (normalize (search r) p) = Some ms
                   \<and> Some v \<in> set ms \<and> decodeURIComponent v = Inl URIError)"
    using first_match_throws [OF t, of "normalize (search r) p" e]
    by (simp add: parse_def Let_def)
  from 1 2 show ?thesis ..
qed

lemma decode_percent: "decodeURIComponent (js ''%'') = Inl URIError"
  by (simp add: js_def)

lemma id_exec_percent: "exec E id_items (js ''/posts/%'') [] = Some [Some (js ''%'')]"
  by (simp add: id_items_def exec_eval eval_nat_numeral)

lemma post_parse_percent: "fst (parse (post_router E) (js ''/posts/%'')) = Inl URIError"
proof -
  have q: "normalize False (js ''/posts/%'') = js ''/posts/%''"
    by (rule normalize_id) (simp_all add: js_def)
  have d: "decode [js ''id''] [Some (js ''%'')] = Inl URIError"
    by (simp add: decode_def match_text_def decode_percent)
  have "first_match (routes (post_router E)) (js ''/posts/%'') = Inl URIError"
    by (simp only: post_router_def router.simps first_match.simps compiled_route.simps
        id_exec_percent d option.case sum.case)
  then show ?thesis
    by (simp add: parse_def Let_def post_router_def q)
qed

theorem parse_throws_witness:
  "createRouter node post_config False = Inr (post_router node)
   \<and> prev (post_router node) \<noteq> Some (normalize (search (post_router node)) (js ''/posts/%''))
   \<and> first_captures (routes (post_router node)) (normalize (search (post_router node)) (js ''/posts/%''))
       = Some [Some (js ''%'')]
   \<and> decodeURIComponent (js ''%'') = Inl URIError
   \<and> fst (parse (post_router node) (js ''/posts/%'')) = Inl URIError
   \<and> PERCENT \<notin> set (js ''/nowhere'')
   \<and> (\<exists>res. fst (parse (post_router node) (js ''/nowhere'')) = Inr res)"
proof -
  let ?r = "post_router node"
  have c: "createRouter node post_config False = Inr ?r"
    by (rule createRouter_post)
  have t: "\<forall>x\<in>set post_config. \<exists>t. snd x = Template t"
    by (simp add: post_config_def)
  have q: "normalize (search ?r) (js ''/posts/%'') = js ''/posts/%''"
    using normalize_id [of "js ''/posts/%''" False] by (simp add: post_router_def js_def)
  have p: "prev ?r \<noteq> Some (normalize (search ?r) (js ''/posts/%''))"
    by (simp add: post_router_def)
  have f: "first_captures (routes ?r) (normalize (search ?r) (js ''/posts/%'')) = Some [Some (js ''%'')]"
    unfolding q by (simp add: post_router_def id_exec_percent)
  have n: "PERCENT \<notin> set (js ''/nowhere'')"
    by (simp add: js_def)
  from parse_throws [OF c refl t, of "js ''/posts/%''" URIError] p f decode_percent
  have 1: "fst (parse ?r (js ''/posts/%'')) = Inl URIError"
    by auto
  from parse_throws [OF c refl t, of "js ''/nowhere''" URIError] n
  have 2: "\<exists>res. fst (parse ?r (js ''/nowhere'')) = Inr res"
    by blast
  from c p f decode_percent 1 n 2 show ?thesis by blast
qed

text \<open>
  The claim C6 as stated fails: a matched segment that is a malformed percent-encoding
  makes \<open>parse\<close> throw a \<open>URIError\<close>.
\<close>

theorem malformed_escape_throws:
  "createRouter node post_config False = Inr (post_router node)
   \<and> fst (parse (post_router node) (js ''/posts/%'')) = Inl URIError"
  using createRouter_post [of node] post_parse_percent [of node] by simp

section \<open>Reverse lookup of a custom route\<close>

lemma compile_name: "compile E x = Inr e \<Longrightarrow> name e = fst x"
  by (cases x; cases "snd x") (auto simp: Let_def split: sum.splits)

lemma compile_all_find_pattern:
  "compile_all E cfg = Inr rs \<Longrightarrow> map_of cfg n = Some (Pattern re d)
   \<Longrightarrow> \<exists>e. find (\<lambda>i. name i = n) rs = Some e \<and> template e = None"
proof (induction cfg arbitrary: rs)
  case Nil
  then show ?case by simp
next
  case (Cons x cfg)
  from Cons.prems(1) obtain e es where e: "compile E x = Inr e" and es: "compile_all E cfg = Inr es"
    and rs: "rs = e # es"
    by (auto split: sum.splits)
  show ?case
  proof (cases "fst x = n")
    case True
    with Cons.prems(2) have "x = (n, Pattern re d)" by (cases x) auto
    with e have "e = \<lparr>name = n, pattern = re, cb = d, template = None\<rparr>" by simp
    then show ?thesis using rs by simp
  next
    case False
    with Cons.prems(2) have "map_of cfg n = Some (Pattern re d)" by (cases x) auto
    from Cons.IH [OF es this] show ?thesis
      using rs False compile_name [OF e] by auto
  qed
qed

text \<open>
  C7 (amended). For a route registered with a custom matcher, \<open>getPagePath\<close> throws the
  error \<open>RegExp routes are not supported\<close> when \<open>process.env.NODE_ENV\<close> is not
  \<open>production\<close>; when it is \<open>production\<close> the check is skipped and \<open>getPagePath\<close> returns
  \<open>/\<close>. This holds in any state of a router created from the configuration.
\<close>

theorem getPagePath_custom:
  assumes "createRouter E cfg b = Inr r0" and "routes r = routes r0"
    and "map_of cfg n = Some (Pattern re d)"
  shows "getPagePath E r n args =
           (if NODE_ENV E = Some (js ''production'') then Inr (js ''/'')
            else Inl (Error (js ''RegExp routes are not supported'')))"
proof -
  from assms(1) obtain rs where rs: "compile_all E (entries cfg) = Inr rs" and r0: "routes r0 = rs"
    by (auto simp: createRouter_def split: sum.splits)
  have "map_of (entries cfg) n = Some (Pattern re d)"
    using assms(3) by simp
  from compile_all_find_pattern [OF rs this] obtain e
    where "find (\<lambda>i. name i = n) rs = Some e" "template e = None" by blast
  then show ?thesis
    using assms(2) r0 by (simp add: getPagePath_def)
qed

theorem getPagePath_custom_witness:
  "createRouter node files_config False = Inr files_router
   \<and> map_of files_config (js ''files'') = Some (Pattern files_pattern files_decoder)
   \<and> getPagePath node files_router (js ''files'') [] = Inl (Error (js ''RegExp routes are not supported''))"
proof -
  have c: "createRouter node files_config False = Inr files_router"
    by (rule createRouter_files)
  have m: "map_of files_config (js ''files'') = Some (Pattern files_pattern files_decoder)"
    by (simp add: files_config_def)
  have "getPagePath node files_router (js ''files'') [] = Inl (Error (js ''RegExp routes are not supported''))"
    using getPagePath_custom [OF c refl m, of "[]"] by (simp add: node_def)
  with c m show ?thesis by blast
qed

text \<open>
  The claim C7 as stated fails: on a production host \<open>getPagePath\<close> returns \<open>/\<close> for the
  custom route \<open>files\<close>.
\<close>

theorem getPagePath_custom_production:
  "createRouter production files_config False = Inr files_router
   \<and> getPagePath production files_router (js ''files'') [] = Inr (js ''/'')"
proof -
  have "createRouter production files_config False = Inr files_router"
    by (rule createRouter_files)
  moreover have "getPagePath production files_router (js ''files'') [] = Inr (js ''/'')"
    by (simp add: getPagePath_def files_router_def production_def)
  ultimately show ?thesis by blast
qed

section \<open>Navigation\<close>

lemma parse_prev: "prev (snd (parse r p)) = Some (normalize (search r) p)"
  by (simp add: parse_def Let_def)

lemma parse_keeps:
  "routes (snd (parse r p)) = routes r" "search (snd (parse r p)) = search r"
  "writes (snd (parse r p)) = writes r" "history (snd (parse r p)) = history r"
  by (simp_all add: parse_def Let_def)

lemma open_prev: "prev (snd (open E p rd r)) = Some (normalize (search r) p)"
  using parse_prev [of r p]
  by (cases "parse r p") (auto simp: open_def split: sum.splits)

lemma open_search: "search (snd (open E p rd r)) = search r"
  using parse_keeps(2) [of r p]
  by (cases "parse r p") (auto simp: open_def split: sum.splits)

lemma parse_again:
  "prev r = Some (normalize (search r) p) \<Longrightarrow> parse r p = (Inr Unchanged, r)"
  by (simp add: parse_def Let_def)

lemma open_again:
  "prev r = Some (normalize (search r) p) \<Longrightarrow> open E p rd r = (None, r)"
  by (simp add: open_def parse_again)

lemma first_match_changed: "first_match rs q \<noteq> Inr Unchanged"
  by (induction rs) (auto split: option.splits sum.splits)

lemma parse_fresh:
  "prev r \<noteq> Some (normalize (search r) p)
   \<Longrightarrow> parse r p = (first_match (routes r) (normalize (search r) p), r\<lparr>prev := Some (normalize (search r) p)\<rparr>)"
  by (simp add: parse_def Let_def)

subsection \<open>Paths that no route matches\<close>

text \<open>
  C2 (amended). \<open>open\<close> guards only the result \<open>false\<close> of \<open>parse\<close>. When \<open>parse\<close> finds
  no route and returns \<open>undefined\<close>, \<open>open\<close> still calls \<open>history.pushState\<close>
  (\<open>replaceState\<close> when \<open>redirect\<close> is true) with the path, when a \<open>history\<close> object
  exists, and stores \<open>undefined\<close> as the page value, just as it stores the page when a
  route matches. \<open>open\<close> makes no call on \<open>history\<close> and no write exactly when \<open>parse\<close>
  returns \<open>false\<close> or throws; when it throws, \<open>open\<close> throws as well.
\<close>

theorem open_no_match:
  "open E p redirect r =
     (case fst (parse r p) of
        Inl e \<Rightarrow> (Some e, r\<lparr>prev := Some (normalize (search r) p)\<rparr>)
      | Inr Unchanged \<Rightarrow> (None, r)
      | Inr NoPage \<Rightarrow>
          (None, r\<lparr>prev := Some (normalize (search r) p),
                   history := (if has_history E
                               then history r @ [if redirect then ReplaceState p else PushState p]
                               else history r),
                   writes := writes r @ [None]\<rparr>)
      | Inr (Page pg) \<Rightarrow>
          (None, r\<lparr>prev := Some (normalize (search r) p),
                   history := (if has_history E
                               then history r @ [if redirect then ReplaceState p else PushState p]
                               else history r),
                   writes := writes r @ [Some pg]\<rparr>))
   \<and> (writes (snd (open E p redirect r)) = writes r \<and> history (snd (open E p redirect r)) = history r
        \<longleftrightarrow> fst (parse r p) = Inr Unchanged \<or> (\<exists>e. fst (parse r p) = Inl e))"
proof (cases "prev r = Some (normalize (search r) p)")
  case True
  then have "parse r p = (Inr Unchanged, r)" by (rule parse_again)
  then show ?thesis by (simp add: open_def)
next
  case False
  from parse_fresh [OF this]
  have p: "parse r p = (first_match (routes r) (normalize (search r) p), r\<lparr>prev := Some (normalize (search r) p)\<rparr>)" .
  show ?thesis
  proof (cases "first_match (routes r) (normalize (search r) p)")
    case (Inl e)
    with p show ?thesis by (simp add: open_def)
  next
    case (Inr res)
    with first_match_changed [of "routes r" "normalize (search r) p"] p show ?thesis
      by (cases res) (simp_all add: open_def)
  qed
qed

lemma blog_first_match_nowhere: "first_match (blog_routes E) (js ''/nowhere'') = Inr NoPage"
  by (simp add: blog_routes_def home_items_def category_items_def post_items_def exec_eval)

lemma blog_nowhere:
  "parse (blog E) (js ''/nowhere'') = (Inr NoPage, blog E\<lparr>prev := Some (js ''/nowhere'')\<rparr>)"
proof -
  have "prev (blog E) \<noteq> Some (normalize (search (blog E)) (js ''/nowhere''))"
    by (simp add: blog_def)
  from parse_fresh [OF this] show ?thesis
    by (simp add: blog_def normalize_nowhere blog_first_match_nowhere)
qed

theorem open_no_match_witness:
  "fst (parse (blog node) (js ''/nowhere'')) = Inr NoPage
   \<and> open node (js ''/nowhere'') False (blog node) =
        (None, blog node\<lparr>prev := Some (js ''/nowhere''), history := [PushState (js ''/nowhere'')],
                          writes := [None]\<rparr>)"
proof -
  have n: "fst (parse (blog node) (js ''/nowhere'')) = Inr NoPage"
    by (simp add: blog_nowhere)
  have "open node (js ''/nowhere'') False (blog node) =
        (None, blog node\<lparr>prev := Some (js ''/nowhere''), history := [PushState (js ''/nowhere'')],
                          writes := [None]\<rparr>)"
    using open_no_match [of node "js ''/nowhere''" False "blog node"] n
    by (simp add: blog_def normalize_nowhere node_def)
  with n show ?thesis by blast
qed

text \<open>
  The claim C2 as stated fails: in the documented router no route matches \<open>/nowhere\<close>, and
  \<open>open('/nowhere')\<close> pushes the path into the history and writes \<open>undefined\<close> into the
  atom.
\<close>

theorem open_no_match_pushes:
  "createRouter node blog_config False = Inr (blog node)
   \<and> fst (parse (blog node) (js ''/nowhere'')) = Inr NoPage
   \<and> history (blog node) = []
   \<and> history (snd (open node (js ''/nowhere'') False (blog node))) = [PushState (js ''/nowhere'')]
   \<and> writes (blog node) = []
   \<and> writes (snd (open node (js ''/nowhere'') False (blog node))) = [None]"
proof -
  have c: "createRouter node blog_config False = Inr (blog node)"
    by (rule createRouter_blog)
  have n: "fst (parse (blog node) (js ''/nowhere'')) = Inr NoPage"
    by (simp add: blog_nowhere)
  have h: "history (snd (open node (js ''/nowhere'') False (blog node))) = [PushState (js ''/nowhere'')]"
    unfolding open_def blog_nowhere by (simp add: blog_def node_def)
  have w: "writes (snd (open node (js ''/nowhere'') False (blog node))) = [None]"
    unfolding open_def blog_nowhere by (simp add: blog_def node_def)
  have "history (blog node) = []" "writes (blog node) = []"
    by (simp_all add: blog_def)
  with c n h w show ?thesis by blast
qed

subsection \<open>Precedence\<close>

lemma compile_all_names: "compile_all E xs = Inr rs \<Longrightarrow> map name rs = map fst xs"
proof (induction xs arbitrary: rs)
  case Nil
  then show ?case by simp
next
  case (Cons x xs)
  from Cons.prems obtain e es where e: "compile E x = Inr e" and es: "compile_all E xs = Inr es"
    and rs: "rs = e # es"
    by (auto split: sum.splits)
  from Cons.IH [OF es] compile_name [OF e] rs show ?case by simp
qed

lemma first_match_first:
  "i < length rs \<Longrightarrow> pattern (rs ! i) q = Some ms \<Longrightarrow> \<forall>k<i. pattern (rs ! k) q = None
   \<Longrightarrow> cb (rs ! i) ms = Inr ps
   \<Longrightarrow> first_match rs q = Inr (Page \<lparr>path = q, route = name (rs ! i), params = ps\<rparr>)"
proof (induction rs arbitrary: i)
  case Nil
  then show ?case by simp
next
  case (Cons x rs)
  show ?case
  proof (cases i)
    case 0
    with Cons.prems show ?thesis by simp
  next
    case (Suc j)
    with Cons.prems(3) have x: "pattern x q = None" by auto
    have "first_match rs q = Inr (Page \<lparr>path = q, route = name (rs ! j), params = ps\<rparr>)"
      using Cons.prems Suc by (intro Cons.IH) auto
    with x Suc show ?thesis by simp
  qed
qed

text \<open>
  C8 (amended). The table holds the routes in the order in which \<open>Object.keys\<close> lists
  the names of the configuration: the names that are array indices first, in ascending
  numeric order, then the other names in the order of their declaration; so in the
  order of declaration when no name is an array index. \<open>parse\<close> scans the table in that
  order, with no scoring: when the entry of index \<open>i\<close> accepts the normalized path and no
  earlier entry does, \<open>parse\<close> returns the page of entry \<open>i\<close>, with its name and its
  decoded parameters, whatever later entries accept (the path not being the one parsed
  last, and the decoder not throwing).
\<close>

theorem parse_first_declared:
  assumes "createRouter E cfg b = Inr r0" and "routes r = routes r0"
  shows "map name (routes r) = Object_keys cfg
       \<and> ((\<forall>key\<in>fst ` set cfg. array_index key = None) \<longrightarrow> map name (routes r) = map fst cfg)
       \<and> (i < length (routes r) \<and> pattern (routes r ! i) (normalize (search r) p) = Some ms
            \<and> (\<forall>k<i. pattern (routes r ! k) (normalize (search r) p) = None)
            \<and> cb (routes r ! i) ms = Inr ps \<and> prev r \<noteq> Some (normalize (search r) p)
          \<longrightarrow> fst (parse r p) =
                Inr (Page \<lparr>path = normalize (search r) p, route = Object_keys cfg ! i, params = ps\<rparr>))"
proof -
  from assms(1) obtain rs where rs: "compile_all E (entries cfg) = Inr rs" and r0: "routes r0 = rs"
    by (auto simp: createRouter_def split: sum.splits)
  from compile_all_names [OF rs] have n: "map name (routes r) = Object_keys cfg"
    using assms(2) r0 by (simp add: entries_keys)
  have f: "fst (parse r p) =
             Inr (Page \<lparr>path = normalize (search r) p, route = Object_keys cfg ! i, params = ps\<rparr>)"
    if "i < length (routes r)" "pattern (routes r ! i) (normalize (search r) p) = Some ms"
      "\<forall>k<i. pattern (routes r ! k) (normalize (search r) p) = None"
      "cb (routes r ! i) ms = Inr ps" "prev r \<noteq> Some (normalize (search r) p)"
  proof -
    have "name (routes r ! i) = Object_keys cfg ! i"
      using that(1) n by (metis nth_map)
    with first_match_first [OF that(1-4)] that(5) show ?thesis
      by (simp add: parse_def Let_def)
  qed
  from n Object_keys_plain [of cfg] f show ?thesis by auto
qed

lemma createRouter_index: "createRouter E index_config False = Inr (index_router E)"
proof -
  have "Object_keys index_config = [js ''0'', js ''post'']"
    by (simp add: Object_keys_def index_config_def array_index_def is_digit_def js_def)
  then have "entries index_config = [(js ''0'', Template (js ''/posts/new'')), (js ''post'', Template (js ''/posts/:id''))]"
    by (simp add: entries_def List.map_filter_simps) (simp add: index_config_def js_def)
  then show ?thesis
    by (simp only: createRouter_def compile_all.simps compile_id compile_new index_router_def sum.case)
qed

lemma new_exec_new: "exec E new_items (js ''/posts/new'') [] = Some []"
  by (simp add: new_items_def exec_eval)

lemma id_exec_new: "exec E id_items (js ''/posts/new'') [] = Some [Some (js ''new'')]"
  by (simp add: id_items_def exec_eval eval_nat_numeral)

theorem parse_first_declared_witness:
  "createRouter node overlap_config False = Inr (overlap_router node)
   \<and> map name (routes (overlap_router node)) = map fst overlap_config
   \<and> map fst overlap_config = [js ''post'', js ''fresh'']
   \<and> pattern (routes (overlap_router node) ! 0) (js ''/posts/new'') = Some [Some (js ''new'')]
   \<and> pattern (routes (overlap_router node) ! 1) (js ''/posts/new'') = Some []
   \<and> fst (parse (overlap_router node) (js ''/posts/new'')) =
        Inr (Page \<lparr>path = js ''/posts/new'', route = js ''post'', params = [js ''id'' \<mapsto> js ''new'']\<rparr>)"
proof -
  let ?r = "overlap_router node"
  have c: "createRouter node overlap_config False = Inr ?r"
    by (rule createRouter_overlap)
  have k: "\<forall>key\<in>fst ` set overlap_config. array_index key = None"
    by (simp add: overlap_config_def array_index_def is_digit_def js_def)
  have m: "map fst overlap_config = [js ''post'', js ''fresh'']"
    by (simp add: overlap_config_def)
  have s: "search ?r = False" and l: "0 < length (routes ?r)" and p: "prev ?r \<noteq> Some (js ''/posts/new'')"
    by (simp_all add: overlap_router_def)
  have 0: "pattern (routes ?r ! 0) (js ''/posts/new'') = Some [Some (js ''new'')]"
    by (simp add: overlap_router_def id_exec_new)
  have 1: "pattern (routes ?r ! 1) (js ''/posts/new'') = Some []"
    by (simp add: overlap_router_def new_exec_new)
  have "decode [js ''id''] [Some (js ''new'')] = Inr [js ''id'' \<mapsto> js ''new'']"
    by (rule decode_one, rule decodeURIComponent_plain) (simp_all add: js_def)
  then have d: "cb (routes ?r ! 0) [Some (js ''new'')] = Inr [js ''id'' \<mapsto> js ''new'']"
    by (simp add: overlap_router_def)
  from parse_first_declared [OF c refl, of 0 "js ''/posts/new''" "[Some (js ''new'')]" "[js ''id'' \<mapsto> js ''new'']"]
  have a: "map name (routes ?r) = Object_keys overlap_config"
    and b: "(\<forall>key\<in>fst ` set overlap_config. array_index key = None)
            \<longrightarrow> map name (routes ?r) = map fst overlap_config"
    and f: "0 < length (routes ?r) \<and> pattern (routes ?r ! 0) (normalize (search ?r) (js ''/posts/new'')) = Some [Some (js ''new'')]
            \<and> (\<forall>k<0. pattern (routes ?r ! k) (normalize (search ?r) (js ''/posts/new'')) = None)
            \<and> cb (routes ?r ! 0) [Some (js ''new'')] = Inr [js ''id'' \<mapsto> js ''new'']
            \<and> prev ?r \<noteq> Some (normalize (search ?r) (js ''/posts/new''))
          \<longrightarrow> fst (parse ?r (js ''/posts/new'')) =
                Inr (Page \<lparr>path = normalize (search ?r) (js ''/posts/new''),
                           route = Object_keys overlap_config ! 0, params = [js ''id'' \<mapsto> js ''new'']\<rparr>)"
    by blast+
  from b k have n: "map name (routes ?r) = map fst overlap_config" by blast
  from a n m have "Object_keys overlap_config = [js ''post'', js ''fresh'']" by simp
  then have o: "Object_keys overlap_config ! 0 = js ''post''" by simp
  from f l 0 d p have "fst (parse ?r (js ''/posts/new'')) =
        Inr (Page \<lparr>path = js ''/posts/new'', route = js ''post'', params = [js ''id'' \<mapsto> js ''new'']\<rparr>)"
    unfolding s normalize_new o by simp
  with c n m 0 1 show ?thesis by blast
qed

lemma index_parse_new:
  "fst (parse (index_router E) (js ''/posts/new'')) =
     Inr (Page \<lparr>path = js ''/posts/new'', route = js ''0'', params = Map.empty\<rparr>)"
proof -
  have "first_match (routes (index_router E)) (js ''/posts/new'') =
        Inr (Page \<lparr>path = js ''/posts/new'', route = js ''0'', params = Map.empty\<rparr>)"
    by (simp add: index_router_def new_exec_new decode_def)
  then show ?thesis
    by (simp add: parse_def Let_def index_router_def normalize_new)
qed

text \<open>
  The claim C8 as stated fails: in \<open>{ post: '/posts/:id', 0: '/posts/new' }\<close> the route
  \<open>post\<close> is declared first and accepts \<open>/posts/new\<close>, but \<open>parse('/posts/new')\<close> returns
  the page of the route \<open>0\<close>, which \<open>Object.keys\<close> lists first.
\<close>

theorem integer_name_goes_first:
  "createRouter node index_config False = Inr (index_router node)
   \<and> map fst index_config = [js ''post'', js ''0'']
   \<and> map name (routes (index_router node)) = [js ''0'', js ''post'']
   \<and> pattern (routes (index_router node) ! 1) (js ''/posts/new'') = Some [Some (js ''new'')]
   \<and> fst (parse (index_router node) (js ''/posts/new'')) =
       Inr (Page \<lparr>path = js ''/posts/new'', route = js ''0'', params = Map.empty\<rparr>)"
proof -
  have "map fst index_config = [js ''post'', js ''0'']"
    by (simp add: index_config_def)
  moreover have "map name (routes (index_router node)) = [js ''0'', js ''post'']"
    by (simp add: index_router_def)
  moreover have "pattern (routes (index_router node) ! 1) (js ''/posts/new'') = Some [Some (js ''new'')]"
    by (simp add: index_router_def id_exec_new)
  ultimately show ?thesis
    using createRouter_index [of node] index_parse_new [of node] by blast
qed

subsection \<open>Opening the same path again\<close>

text \<open>
  C9 (amended). When two paths normalize to the same string, a call of \<open>open\<close> with the
  second right after a call with the first changes nothing: \<open>parse\<close> returns \<open>false\<close>,
  and there is neither a write into the atom nor a call on \<open>history\<close>. The two calls
  together make one state transition, that of the first call, when \<open>parse\<close> of the first
  path returns a page or \<open>undefined\<close>; they make none when it returns \<open>false\<close>, the path
  being the one parsed last, or throws.
\<close>

theorem open_twice:
  assumes "normalize (search r) p2 = normalize (search r) p1"
  shows "open E p2 rd2 (snd (open E p1 rd1 r)) = (None, snd (open E p1 rd1 r))
       \<and> writes (snd (open E p2 rd2 (snd (open E p1 rd1 r)))) =
           (case fst (parse r p1) of
              Inl e \<Rightarrow> writes r
            | Inr Unchanged \<Rightarrow> writes r
            | Inr NoPage \<Rightarrow> writes r @ [None]
            | Inr (Page pg) \<Rightarrow> writes r @ [Some pg])"
proof -
  let ?r1 = "snd (open E p1 rd1 r)"
  have "prev ?r1 = Some (normalize (search ?r1) p2)"
    using assms by (simp add: open_prev open_search)
  then have 2: "open E p2 rd2 ?r1 = (None, ?r1)"
    by (rule open_again)
  have "writes ?r1 =
           (case fst (parse r p1) of
              Inl e \<Rightarrow> writes r
            | Inr Unchanged \<Rightarrow> writes r
            | Inr NoPage \<Rightarrow> writes r @ [None]
            | Inr (Page pg) \<Rightarrow> writes r @ [Some pg])"
  proof (cases "parse r p1")
    case (Pair res r')
    with parse_keeps(3) [of r p1] have w: "writes r' = writes r" by simp
    show ?thesis
    proof (cases res)
      case (Inl e)
      with Pair w show ?thesis by (simp add: open_def)
    next
      case (Inr pg)
      with Pair w show ?thesis by (cases pg) (simp_all add: open_def)
    qed
  qed
  with 2 show ?thesis by simp
qed

lemma blog_first_match_guides:
  "first_match (blog_routes E) (js ''/posts/guides'') =
     Inr (Page \<lparr>path = js ''/posts/guides'', route = js ''category'',
                params = [js ''categoryId'' \<mapsto> js ''guides'']\<rparr>)"
proof -
  have h: "exec E home_items (js ''/posts/guides'') [] = None"
    by (simp add: home_items_def exec_eval)
  have c: "exec E category_items (js ''/posts/guides'') [] = Some [Some (js ''guides'')]"
    by (simp add: category_items_def exec_eval eval_nat_numeral)
  have d: "decode [js ''categoryId''] [Some (js ''guides'')] = Inr [js ''categoryId'' \<mapsto> js ''guides'']"
    by (rule decode_one, rule decodeURIComponent_plain) (simp_all add: js_def)
  show ?thesis
    by (simp only: blog_routes_def first_match.simps compiled_route.simps h c d option.case sum.case)
qed

lemma post_open_percent:
  "open E (js ''/posts/%'') rd (post_router E) = (Some URIError, (post_router E)\<lparr>prev := Some (js ''/posts/%'')\<rparr>)"
proof -
  have q: "normalize (search (post_router E)) (js ''/posts/%'') = js ''/posts/%''"
    using normalize_id [of "js ''/posts/%''" False] by (simp add: post_router_def js_def)
  have "prev (post_router E) \<noteq> Some (normalize (search (post_router E)) (js ''/posts/%''))"
    by (simp add: post_router_def)
  from parse_fresh [OF this] post_parse_percent [of E]
  have "parse (post_router E) (js ''/posts/%'') = (Inl URIError, (post_router E)\<lparr>prev := Some (js ''/posts/%'')\<rparr>)"
    unfolding q by (simp add: prod_eq_iff)
  then show ?thesis by (simp add: open_def)
qed

theorem open_twice_witness:
  "normalize (search (blog node)) (js ''/posts/guides/'') = normalize (search (blog node)) (js ''/posts/guides'')
   \<and> fst (parse (blog node) (js ''/posts/guides'')) =
       Inr (Page \<lparr>path = js ''/posts/guides'', route = js ''category'',
                  params = [js ''categoryId'' \<mapsto> js ''guides'']\<rparr>)
   \<and> open node (js ''/posts/guides/'') False (snd (open node (js ''/posts/guides'') False (blog node)))
       = (None, snd (open node (js ''/posts/guides'') False (blog node)))
   \<and> writes (snd (open node (js ''/posts/guides/'') False
                (snd (open node (js ''/posts/guides'') False (blog node)))))
       = [Some \<lparr>path = js ''/posts/guides'', route = js ''category'',
                 params = [js ''categoryId'' \<mapsto> js ''guides'']\<rparr>]"
proof -
  let ?r = "blog node"
  have s: "search ?r = False"
    by (simp add: blog_def)
  have n: "normalize (search ?r) (js ''/posts/guides/'') = normalize (search ?r) (js ''/posts/guides'')"
    unfolding s by (simp only: normalize_guides normalize_guides_slash)
  have "prev ?r \<noteq> Some (normalize (search ?r) (js ''/posts/guides''))"
    by (simp add: blog_def)
  from parse_fresh [OF this]
  have f: "fst (parse ?r (js ''/posts/guides'')) =
       Inr (Page \<lparr>path = js ''/posts/guides'', route = js ''category'',
                  params = [js ''categoryId'' \<mapsto> js ''guides'']\<rparr>)"
    by (simp add: blog_def normalize_guides blog_first_match_guides)
  have w: "writes ?r = []"
    by (simp add: blog_def)
  from open_twice [OF n, of node False False]
  have a: "open node (js ''/posts/guides/'') False (snd (open node (js ''/posts/guides'') False ?r))
           = (None, snd (open node (js ''/posts/guides'') False ?r))"
    and b: "writes (snd (open node (js ''/posts/guides/'') False (snd (open node (js ''/posts/guides'') False ?r))))
           = (case fst (parse ?r (js ''/posts/guides'')) of
                Inl e \<Rightarrow> writes ?r
              | Inr Unchanged \<Rightarrow> writes ?r
              | Inr NoPage \<Rightarrow> writes ?r @ [None]
              | Inr (Page pg) \<Rightarrow> writes ?r @ [Some pg])"
    by blast+
  have "writes (snd (open node (js ''/posts/guides/'') False (snd (open node (js ''/posts/guides'') False ?r))))
        = [Some \<lparr>path = js ''/posts/guides'', route = js ''category'',
                  params = [js ''categoryId'' \<mapsto> js ''guides'']\<rparr>]"
    unfolding b f w by simp
  with n f a show ?thesis by blast
qed

text \<open>
  The claim C9 as stated fails: \<open>open('/posts/%')\<close> twice in a row on a router with the
  template \<open>/posts/:id\<close> makes no state transition at all; the first call throws, and the
  second is guarded by the memo.
\<close>

theorem two_opens_no_transition:
  "createRouter node post_config False = Inr (post_router node)
   \<and> writes (post_router node) = []
   \<and> fst (open node (js ''/posts/%'') False (post_router node)) = Some URIError
   \<and> open node (js ''/posts/%'') False (snd (open node (js ''/posts/%'') False (post_router node)))
       = (None, snd (open node (js ''/posts/%'') False (post_router node)))
   \<and> writes (snd (open node (js ''/posts/%'') False
                (snd (open node (js ''/posts/%'') False (post_router node))))) = []
   \<and> history (snd (open node (js ''/posts/%'') False
                (snd (open node (js ''/posts/%'') False (post_router node))))) = []"
proof -
  let ?r1 = "(post_router node)\<lparr>prev := Some (js ''/posts/%'')\<rparr>"
  have q: "normalize (search ?r1) (js ''/posts/%'') = js ''/posts/%''"
    using normalize_id [of "js ''/posts/%''" False] by (simp add: post_router_def js_def)
  have "prev ?r1 = Some (normalize (search ?r1) (js ''/posts/%''))"
    unfolding q by simp
  from open_again [OF this, of node False]
  have 2: "open node (js ''/posts/%'') False ?r1 = (None, ?r1)" .
  have w: "writes (post_router node) = []" "history (post_router node) = []"
    by (simp_all add: post_router_def)
  from createRouter_post [of node] post_open_percent [of node False] 2 w
  show ?thesis by simp
qed

subsection \<open>The memo after a path that no route matches\<close>

text \<open>
  C10. Every call of \<open>parse\<close> leaves the normalized path in \<open>prev\<close>, whatever its result.
  So after a \<open>parse\<close> that found no route, a \<open>parse\<close> of a path with the same normal form
  returns \<open>false\<close>, not \<open>undefined\<close>, and a second \<open>open\<close> of such a path right after the
  first makes no call on \<open>history\<close> and no write into the atom.
\<close>

theorem parse_memo:
  "prev (snd (parse r p)) = Some (normalize (search r) p)
   \<and> (fst (parse r p) = Inr NoPage \<and> normalize (search r) p' = normalize (search r) p
        \<longrightarrow> fst (parse (snd (parse r p)) p') = Inr Unchanged
          \<and> open E p' rd' (snd (open E p rd r)) = (None, snd (open E p rd r)))"
proof -
  have "fst (parse (snd (parse r p)) p') = Inr Unchanged"
    if "normalize (search r) p' = normalize (search r) p"
    using that parse_again [of "snd (parse r p)" p'] by (simp add: parse_prev parse_keeps)
  moreover have "open E p' rd' (snd (open E p rd r)) = (None, snd (open E p rd r))"
    if "normalize (search r) p' = normalize (search r) p"
    using that by (intro open_again) (simp add: open_prev open_search)
  ultimately show ?thesis by (simp add: parse_prev)
qed

theorem parse_memo_witness:
  "fst (parse (blog node) (js ''/nowhere'')) = Inr NoPage
   \<and> normalize (search (blog node)) (js ''/nowhere/'') = normalize (search (blog node)) (js ''/nowhere'')
   \<and> prev (snd (parse (blog node) (js ''/nowhere''))) = Some (js ''/nowhere'')
   \<and> fst (parse (snd (parse (blog node) (js ''/nowhere''))) (js ''/nowhere/'')) = Inr Unchanged
   \<and> open node (js ''/nowhere/'') False (snd (open node (js ''/nowhere'') False (blog node)))
       = (None, snd (open node (js ''/nowhere'') False (blog node)))"
proof -
  let ?r = "blog node"
  have s: "search ?r = False"
    by (simp add: blog_def)
  have a: "fst (parse ?r (js ''/nowhere'')) = Inr NoPage"
    by (simp add: blog_nowhere)
  have n: "normalize (search ?r) (js ''/nowhere/'') = normalize (search ?r) (js ''/nowhere'')"
    unfolding s by (simp only: normalize_nowhere normalize_nowhere_slash)
  have q: "normalize (search ?r) (js ''/nowhere'') = js ''/nowhere''"
    unfolding s by (rule normalize_nowhere)
  from parse_memo [of ?r "js ''/nowhere''" "js ''/nowhere/''" node False False] a n
  have "prev (snd (parse ?r (js ''/nowhere''))) = Some (normalize (search ?r) (js ''/nowhere''))"
    and "fst (parse (snd (parse ?r (js ''/nowhere''))) (js ''/nowhere/'')) = Inr Unchanged"
    and "open node (js ''/nowhere/'') False (snd (open node (js ''/nowhere'') False ?r))
          = (None, snd (open node (js ''/nowhere'') False ?r))"
    by blast+
  with a n q show ?thesis by simp
qed

section \<open>Building the path of a page\<close>

lemma encode_undefined: "encodeURIComponent (js ''undefined'') = Inr (js ''undefined'')"
  by (simp add: js_def is_unreserved_def)

lemma array_get_categoryId:
  "array_proto E (js ''categoryId'') = Undefined \<Longrightarrow> array_get E args (js ''categoryId'') = Undefined"
  by (simp add: array_get_def array_index_def is_digit_def js_def)

lemma array_get_id:
  "array_proto E (js ''id'') = Undefined \<Longrightarrow> array_get E args (js ''id'') = Undefined"
  by (simp add: array_get_def array_index_def is_digit_def js_def)

lemma scan_optional_post:
  "scan (js ''/:'') (js ''?'') (js ''/posts/:categoryId/:id'') = map Inl (js ''/posts/:categoryId/:id'')"
  by (simp add: scan_eval)

lemma scan_required_post:
  "scan (js ''/:'') [] (js ''/posts/:categoryId/:id'') =
     map Inl (js ''/posts'') @ [Inr (js ''/:categoryId''), Inr (js ''/:id'')]"
  by (simp add: scan_eval)

lemma replace_tokens_Inl: "replace_tokens f (map Inl s) = Inr s"
  by (induction s) auto

lemma replace_tokens_Inl_append:
  "replace_tokens f (map Inl s @ ts) = (case replace_tokens f ts of Inl e \<Rightarrow> Inl e | Inr r \<Rightarrow> Inr (s @ r))"
  by (induction s) (auto split: sum.splits)

text \<open>
  C1. The documented call \<open>getPagePath(router, 'post', { categoryId: 'guides', id: '10' })\<close>
  on the documented router. \<open>getPagePath\<close> declares \<open>...params\<close>, so \<open>params\<close> is the
  array of the arguments behind the name, here \<open>[{ categoryId: 'guides', id: '10' }]\<close>;
  \<open>params['categoryId']\<close> and \<open>params['id']\<close> are properties of that array, \<open>undefined\<close>
  on an engine whose arrays inherit no property of these names. So whatever the
  arguments are, the result is \<open>/posts/undefined/undefined\<close>, not the \<open>/posts/guides/10\<close>
  that the claim and the documentation comment of \<open>getPagePath\<close> give.
\<close>

theorem getPagePath_post:
  assumes "array_proto E (js ''categoryId'') = Undefined" and "array_proto E (js ''id'') = Undefined"
  shows "getPagePath E (blog E) (js ''post'') args = Inr (js ''/posts/undefined/undefined'')"
proof -
  have f: "find (\<lambda>i. name i = js ''post'') (routes (blog E)) =
             Some \<lparr>name = js ''post'', pattern = (\<lambda>s. exec E post_items s []),
                   cb = decode [js ''categoryId'', js ''id''], template = Some (js ''/posts/:categoryId/:id'')\<rparr>"
    by (simp add: blog_def blog_routes_def js_def)
  have ne: "js ''/posts/:categoryId/:id'' \<noteq> []"
    by (simp add: js_def)
  have 1: "replace_with (js ''/:'') (js ''?'') (optional_segment E args) (js ''/posts/:categoryId/:id'')
           = Inr (js ''/posts/:categoryId/:id'')"
    by (simp only: replace_with_def scan_optional_post replace_tokens_Inl)
  have c: "required_segment E args (js ''/:categoryId'') = Inr (js ''/undefined'')"
  proof -
    have "drop 2 (js ''/:categoryId'') = js ''categoryId''" by (simp add: js_def)
    then show ?thesis
      using array_get_categoryId [OF assms(1), of args] encode_undefined
      by (simp add: required_segment_def) (simp add: js_def)
  qed
  have i: "required_segment E args (js ''/:id'') = Inr (js ''/undefined'')"
  proof -
    have "drop 2 (js ''/:id'') = js ''id''" by (simp add: js_def)
    then show ?thesis
      using array_get_id [OF assms(2), of args] encode_undefined
      by (simp add: required_segment_def) (simp add: js_def)
  qed
  have 2: "replace_with (js ''/:'') [] (required_segment E args) (js ''/posts/:categoryId/:id'')
           = Inr (js ''/posts/undefined/undefined'')"
    by (simp only: replace_with_def scan_required_post replace_tokens_Inl_append replace_tokens.simps
        c i sum.case) (simp add: js_def)
  have o: "or_slash (js ''/posts/undefined/undefined'') = js ''/posts/undefined/undefined''"
    by (simp add: or_slash_def js_def)
  show ?thesis
    unfolding getPagePath_def f using ne by (simp add: 1 2 o)
qed

theorem getPagePath_post_witness:
  "array_proto node (js ''categoryId'') = Undefined \<and> array_proto node (js ''id'') = Undefined
   \<and> createRouter node blog_config False = Inr (blog node)
   \<and> getPagePath node (blog node) (js ''post'')
           [Object [(js ''categoryId'', Str (js ''guides'')), (js ''id'', Str (js ''10''))]]
         = Inr (js ''/posts/undefined/undefined'')"
proof -
  have a: "array_proto node (js ''categoryId'') = Undefined" and b: "array_proto node (js ''id'') = Undefined"
    by (simp_all add: node_def)
  from getPagePath_post [OF a b] a b createRouter_blog [of node] show ?thesis by blast
qed

end
